theory Spec2Isabelle
  imports Complex_Main "HOL-Library.Word"
begin

section \<open>Bytes, errors and struct decoding\<close>

text \<open>
  The mapped file is an immutable sequence of bytes.  Every exception the program can
  raise is a value of \<open>error\<close>; a function that can raise returns \<open>error + 'a\<close>
  with \<open>Inl\<close> for the exception.
\<close>

type_synonym byte = "8 word"

datatype error =
  RuntimeError | ValueError | IndexError | StructError | ZeroDivisionError | OverflowError

text \<open>Big-endian unsigned integer held in a run of bytes (\<open>>H\<close> and \<open>>I\<close> of \<open>struct\<close>).\<close>

definition be :: "byte list \<Rightarrow> int" where
  "be bs = foldl (\<lambda>a x. a * 256 + uint x) 0 bs"

text \<open>
  \<open>Struct.unpack_from(b, offset)\<close> for a format of \<open>sz\<close> bytes: a negative offset counts
  from the end of the buffer, and a read that does not fit raises \<open>struct.error\<close>.
  The result is the run of \<open>sz\<close> bytes that the format then decodes.
\<close>

definition unpack_from :: "nat \<Rightarrow> byte list \<Rightarrow> int \<Rightarrow> error + byte list" where
  "unpack_from sz b off =
     (case (if off < 0
            then (if 0 < off + int sz then Inl StructError
                  else if off + int (length b) < 0 then Inl StructError
                  else Inr (off + int (length b)))
            else Inr off) of
        Inl e \<Rightarrow> Inl e
      | Inr p \<Rightarrow> if int (length b) - p < int sz then Inl StructError
                 else Inr (take sz (drop (nat p) b)))"

text \<open>\<open>pair_fmt = struct.Struct('>HH')\<close>: one burst pair, on time then off time.\<close>

definition pair_unpack_from :: "byte list \<Rightarrow> int \<Rightarrow> error + (int \<times> int)" where
  "pair_unpack_from b off =
     (case unpack_from 4 b off of
        Inl e \<Rightarrow> Inl e
      | Inr bs \<Rightarrow> Inr (be (take 2 bs), be (take 2 (drop 2 bs))))"

text \<open>
  \<open>unpack_seq(b, i, n)\<close>: the loop \<open>for k in range(n)\<close> with its two variables, the
  result list \<open>r\<close> and the running offset \<open>o\<close>.
\<close>

primrec unpack_seq_loop :: "byte list \<Rightarrow> int \<Rightarrow> nat \<Rightarrow> int \<Rightarrow> int list \<Rightarrow> error + int list" where
  "unpack_seq_loop b i 0 o' r = Inr r"
| "unpack_seq_loop b i (Suc m) o' r =
     (case pair_unpack_from b (i + o') of
        Inl e \<Rightarrow> Inl e
      | Inr (on, off) \<Rightarrow> unpack_seq_loop b i m (o' + 4) (r @ [on, off]))"

definition unpack_seq :: "byte list \<Rightarrow> int \<Rightarrow> nat \<Rightarrow> error + int list" where
  "unpack_seq b i n = unpack_seq_loop b i n 0 []"

text \<open>The big-endian 16-bit value stored at offset \<open>p\<close> of the buffer.\<close>

definition u16_at :: "byte list \<Rightarrow> nat \<Rightarrow> int" where
  "u16_at b p = uint (b ! p) * 256 + uint (b ! (p + 1))"

section \<open>Double-precision arithmetic\<close>

text \<open>
  Python's \<open>float\<close> is an IEEE 754 binary64 number.  A finite double is a rational, and
  every operation returns the exact result rounded to the nearest double, ties to the
  even significand.  \<open>round64\<close> is that rounding: the exponent \<open>expo x\<close> is the \<open>e\<close> with
  \<open>2^e \<le> |x| < 2^(e+1)\<close> (not below the smallest normal exponent), and the quotient by
  the unit in the last place is rounded to an integer by \<open>rne\<close>.  Infinities and NaN are
  not values of the model: where the program could produce one, the operation that
  would consume it is given the exception Python raises there.
\<close>

fun bits :: "nat \<Rightarrow> nat" where
  "bits n = (if n = 0 then 0 else Suc (bits (n div 2)))"

declare bits.simps [simp del]

definition expo :: "rat \<Rightarrow> int" where
  "expo x = (let (n, d) = quotient_of \<bar>x\<bar>;
                 s = int (bits (nat n)) - int (bits (nat d))
             in if 2 powi s \<le> \<bar>x\<bar> then s else s - 1)"

definition rne :: "rat \<Rightarrow> int" where
  "rne y = (let f = \<lfloor>y\<rfloor>; r = y - of_int f
            in if r < 1 / 2 then f
               else if 1 / 2 < r then f + 1
               else if even f then f else f + 1)"

definition round64 :: "rat \<Rightarrow> rat" where
  "round64 x = (if x = 0 then 0
                else let e = max (expo x) (- 1022) - 52
                     in of_int (rne (x / 2 powi e)) * 2 powi e)"

text \<open>Conversion of an \<open>int\<close> to \<open>float\<close>; too large a value raises \<open>OverflowError\<close>.\<close>

definition py_float :: "int \<Rightarrow> error + rat" where
  "py_float n = (let r = round64 (of_int n)
                 in if 2 ^ 1024 \<le> \<bar>r\<bar> then Inl OverflowError else Inr r)"

text \<open>\<open>float * float\<close> and \<open>float / float\<close>.\<close>

definition fmul :: "rat \<Rightarrow> rat \<Rightarrow> rat" where
  "fmul a b = round64 (a * b)"

definition fdiv :: "rat \<Rightarrow> rat \<Rightarrow> error + rat" where
  "fdiv a b = (if b = 0 then Inl ZeroDivisionError else Inr (round64 (a / b)))"

text \<open>\<open>int / int\<close>: true division, correctly rounded.\<close>

definition int_truediv :: "int \<Rightarrow> int \<Rightarrow> error + rat" where
  "int_truediv a b =
     (if b = 0 then Inl ZeroDivisionError
      else let r = round64 (of_int a / of_int b)
           in if 2 ^ 1024 \<le> \<bar>r\<bar> then Inl OverflowError else Inr r)"

text \<open>\<open>int(x)\<close> of a float: truncation toward zero.\<close>

definition py_int :: "rat \<Rightarrow> int" where
  "py_int x = (if x < 0 then - \<lfloor>- x\<rfloor> else \<lfloor>x\<rfloor>)"

text \<open>The decimal literals of the source, each the double nearest to its decimal value.\<close>

definition lit_0_241246 :: rat where "lit_0_241246 = round64 (241246 / 1000000)"
definition lit_0_97 :: rat where "lit_0_97 = round64 (97 / 100)"
definition lit_1_03 :: rat where "lit_1_03 = round64 (103 / 100)"

section \<open>Frequency math\<close>

text \<open>\<open>to_khz(k) = 1000000.0 / (k * 0.241246) / 1000.0\<close>\<close>

definition to_khz :: "int \<Rightarrow> error + rat" where
  "to_khz k =
     (case py_float k of
        Inl e \<Rightarrow> Inl e
      | Inr fk \<Rightarrow>
          (case fdiv 1000000 (fmul fk lit_0_241246) of
             Inl e \<Rightarrow> Inl e
           | Inr q \<Rightarrow> fdiv q 1000))"

text \<open>\<open>to_usec(x, k) = int(x * k * 0.241246)\<close>\<close>

definition to_usec :: "int \<Rightarrow> int \<Rightarrow> error + int" where
  "to_usec x k =
     (case py_float (x * k) of
        Inl e \<Rightarrow> Inl e
      | Inr f \<Rightarrow> Inr (py_int (fmul f lit_0_241246)))"

text \<open>
  \<open>rescale(x, old_k, k) = int(old_k/k * x)\<close>.  A product beyond the largest double is
  infinite, and \<open>int\<close> of an infinity raises \<open>OverflowError\<close>.
\<close>

definition rescale :: "int \<Rightarrow> int \<Rightarrow> int \<Rightarrow> error + int" where
  "rescale x old_k k =
     (case int_truediv old_k k of
        Inl e \<Rightarrow> Inl e
      | Inr q \<Rightarrow>
          (case py_float x of
             Inl e \<Rightarrow> Inl e
           | Inr fx \<Rightarrow>
               (let p = fmul q fx
                in if 2 ^ 1024 \<le> \<bar>p\<bar> then Inl OverflowError else Inr (py_int p))))"

text \<open>\<open>freq2k(freq) = int(1000000.0 / (freq * 0.241246))\<close>\<close>

definition freq2k :: "int \<Rightarrow> error + int" where
  "freq2k freq =
     (case py_float freq of
        Inl e \<Rightarrow> Inl e
      | Inr f \<Rightarrow>
          (case fdiv 1000000 (fmul f lit_0_241246) of
             Inl e \<Rightarrow> Inl e
           | Inr q \<Rightarrow> Inr (py_int q)))"

section \<open>Command-line arguments and printed output\<close>

text \<open>
  The parsed arguments: \<open>--lirc\<close>, \<open>--rescale HZ\<close> (absent is \<open>None\<close>) and \<open>--carrier HZ\<close>.
\<close>

record args =
  args_lirc :: bool
  args_rescale :: "int option"
  args_carrier :: int

text \<open>
  Each \<open>print\<close> call is one \<open>line\<close>, holding the values the call renders; the rendering
  of numbers as text is not part of the model.  \<open>SeqLine xs hex\<close> is the output of
  \<open>format_seq(xs, 8, hex)\<close>, which is the empty string exactly when \<open>xs\<close> is empty.
  A printing function returns the lines it printed and the exception that ended it, if any.
\<close>

datatype line =
    ButtonLine "byte list"
  | CarrierLine rat int
  | HeaderLine int int int
  | PairsLine string nat bool
  | SeqLine "int list" bool

type_synonym outcome = "line list \<times> error option"

definition then_out :: "outcome \<Rightarrow> outcome \<Rightarrow> outcome" where
  "then_out p q = (case snd p of Some e \<Rightarrow> p | None \<Rightarrow> (fst p @ fst q, snd q))"

text \<open>A list comprehension whose element function can raise.\<close>

primrec map_raise :: "('a \<Rightarrow> error + 'b) \<Rightarrow> 'a list \<Rightarrow> error + 'b list" where
  "map_raise f [] = Inr []"
| "map_raise f (x # xs) =
     (case f x of
        Inl e \<Rightarrow> Inl e
      | Inr y \<Rightarrow> (case map_raise f xs of Inl e \<Rightarrow> Inl e | Inr ys \<Rightarrow> Inr (y # ys)))"

section \<open>Button blocks\<close>

definition dump_pairs :: "int list \<Rightarrow> string \<Rightarrow> int \<Rightarrow> args \<Rightarrow> outcome" where
  "dump_pairs xs name base a =
     (let hdr = PairsLine name (length xs div 2) (args_lirc a);
          conv = (if args_lirc a then map_raise (\<lambda>x. to_usec x base) xs
                  else (case args_rescale a of
                          None \<Rightarrow> Inr xs
                        | Some hz \<Rightarrow>
                            if hz = 0 then Inr xs
                            else (case freq2k hz of
                                    Inl e \<Rightarrow> Inl e
                                  | Inr k \<Rightarrow> map_raise (\<lambda>x. rescale x base k) xs)))
      in case conv of
           Inl e \<Rightarrow> ([hdr], Some e)
         | Inr ys \<Rightarrow> (if ys = [] then [hdr] else [hdr, SeqLine ys (\<not> args_lirc a)], None))"

text \<open>
  \<open>b[j]\<close> on the mapped file with a non-negative index.
\<close>

definition getitem :: "byte list \<Rightarrow> nat \<Rightarrow> error + byte" where
  "getitem b p = (if p < length b then Inr (b ! p) else Inl IndexError)"

text \<open>
  \<open>dump_button(b, i, args)\<close>.  \<open>code_fmt = struct.Struct('>HI2xHHH')\<close> is 14 bytes:
  size, name offset, two pad bytes, carrier factor, once count, repeat count.
  \<open>dump_block\<close> is the body of its \<open>if\<close> statement, run when the size field matches.
\<close>

definition dump_block :: "byte list \<Rightarrow> nat \<Rightarrow> args \<Rightarrow> int \<Rightarrow> int \<Rightarrow> int \<Rightarrow> int \<Rightarrow> outcome" where
  "dump_block b i a j base once_k repeat_k =
     (case getitem b (nat j) of
        Inl e \<Rightarrow> ([], Some e)
      | Inr lb \<Rightarrow>
          (let l = unat lb;
               name = take l (drop (nat j + 1) b)
           in case (case args_rescale a of
                      None \<Rightarrow> Inr base
                    | Some hz \<Rightarrow> if hz = 0 then Inr base else freq2k hz) of
                Inl e \<Rightarrow> ([ButtonLine name], Some e)
              | Inr baseP \<Rightarrow>
                  (case to_khz baseP of
                     Inl e \<Rightarrow> ([ButtonLine name], Some e)
                   | Inr khz \<Rightarrow>
                       then_out
                         ([ButtonLine name, CarrierLine khz baseP,
                           HeaderLine baseP once_k repeat_k], None)
                         (case unpack_seq b (int i + 8) (nat once_k) of
                            Inl e \<Rightarrow> ([], Some e)
                          | Inr xs \<Rightarrow>
                              then_out (dump_pairs xs ''once'' base a)
                                (case unpack_seq b (int i + 8 + once_k * 4) (nat repeat_k) of
                                   Inl e \<Rightarrow> ([], Some e)
                                 | Inr ys \<Rightarrow> dump_pairs ys ''repeat'' base a)))))"

definition dump_button :: "byte list \<Rightarrow> nat \<Rightarrow> args \<Rightarrow> outcome" where
  "dump_button b i a =
     (case unpack_from 14 b (int i - 6) of
        Inl e \<Rightarrow> ([], Some e)
      | Inr h \<Rightarrow>
          (let n = be (take 2 h);
               j = be (take 4 (drop 2 h));
               base = be (take 2 (drop 8 h));
               once_k = be (take 2 (drop 10 h));
               repeat_k = be (take 2 (drop 12 h))
           in if n = 6 + 8 + (once_k + repeat_k) * (2 + 2)
              then dump_block b i a j base once_k repeat_k
              else ([], None)))"

text \<open>
  The last four statements of the body of \<open>dump_button\<close>, which read and print the once
  and the repeat sequence; \<open>dump_block\<close> ends with them.
\<close>

definition pulse_part :: "byte list \<Rightarrow> nat \<Rightarrow> args \<Rightarrow> int \<Rightarrow> int \<Rightarrow> int \<Rightarrow> outcome" where
  "pulse_part b i a base once_k repeat_k =
     (case unpack_seq b (int i + 8) (nat once_k) of
        Inl e \<Rightarrow> ([], Some e)
      | Inr xs \<Rightarrow>
          then_out (dump_pairs xs ''once'' base a)
            (case unpack_seq b (int i + 8 + once_k * 4) (nat repeat_k) of
               Inl e \<Rightarrow> ([], Some e)
             | Inr ys \<Rightarrow> dump_pairs ys ''repeat'' base a))"

section \<open>Block scanner\<close>

text \<open>\<open>b.find(pat, off)\<close>: the lowest index from \<open>off\<close> on at which \<open>pat\<close> occurs.\<close>

function bfind :: "byte list \<Rightarrow> byte list \<Rightarrow> nat \<Rightarrow> nat option" where
  "bfind b pat off =
     (if length b < off + length pat then None
      else if take (length pat) (drop off b) = pat then Some off
      else bfind b pat (off + 1))"
  by pat_completeness auto
termination
  by (relation "measure (\<lambda>(b, pat, off). Suc (length b) - off)") auto

declare bfind.simps [simp del]

definition pat :: "byte list" where
  "pat = [0, 0, 0]"

text \<open>
  The test that guards \<open>dump_button\<close>; \<open>and\<close> evaluates its operands from the left and
  stops at the first false one, and each index can raise \<open>IndexError\<close>.
\<close>

definition heuristic :: "byte list \<Rightarrow> nat \<Rightarrow> int \<Rightarrow> int \<Rightarrow> error + bool" where
  "heuristic b i k_low k_high =
     (case getitem b (i + 4) of
        Inl e \<Rightarrow> Inl e
      | Inr x4 \<Rightarrow>
          if x4 \<noteq> 0 then Inr False
          else (case getitem b (i + 6) of
                  Inl e \<Rightarrow> Inl e
                | Inr x6 \<Rightarrow>
                    if x6 \<noteq> 0 then Inr False
                    else (case getitem b (i + 3) of
                            Inl e \<Rightarrow> Inl e
                          | Inr x3 \<Rightarrow> Inr (k_low < uint x3 \<and> uint x3 < k_high))))"

text \<open>
  The result of the scan: one entry per call of \<open>dump_button\<close>, holding the marker
  offset of the call and the lines it printed (the program's output is their
  concatenation), the exception that ended the run, if any, and the number of times the
  loop body was entered.
\<close>

record scan_result =
  calls :: "(nat \<times> line list) list"
  raised :: "error option"
  iters :: nat

definition printed :: "scan_result \<Rightarrow> line list" where
  "printed r = concat (map snd (calls r))"

definition later :: "(nat \<times> line list) list \<Rightarrow> scan_result \<Rightarrow> scan_result" where
  "later cs r = r\<lparr>calls := cs @ calls r, iters := Suc (iters r)\<rparr>"

lemma bfind_Some:
  "bfind b p off = Some i \<Longrightarrow> off \<le> i \<and> i + length p \<le> length b \<and> take (length p) (drop i b) = p"
proof (induction b p off rule: bfind.induct)
  case (1 b p off)
  show ?case
  proof (cases "length b < off + length p")
    case True
    with 1(2) show ?thesis by (simp add: bfind.simps [of b p off])
  next
    case False
    show ?thesis
    proof (cases "take (length p) (drop off b) = p")
      case True
      with False 1(2) show ?thesis by (simp add: bfind.simps [of b p off]) 
    next
      case ne: False
      with False 1(2) have "bfind b p (off + 1) = Some i" by (simp add: bfind.simps [of b p off])
      from 1(1) [OF False ne this] show ?thesis by simp
    qed
  qed
qed

function scan :: "args \<Rightarrow> byte list \<Rightarrow> int \<Rightarrow> int \<Rightarrow> nat \<Rightarrow> scan_result" where
  "scan a b k_low k_high off =
     (case bfind b pat off of
        None \<Rightarrow> \<lparr>calls = [], raised = None, iters = 1\<rparr>
      | Some i \<Rightarrow>
          (case heuristic b i k_low k_high of
             Inl e \<Rightarrow> \<lparr>calls = [], raised = Some e, iters = 1\<rparr>
           | Inr ok \<Rightarrow>
               if ok
               then (case dump_button b i a of
                       (ls, Some e) \<Rightarrow> \<lparr>calls = [(i, ls)], raised = Some e, iters = 1\<rparr>
                     | (ls, None) \<Rightarrow> later [(i, ls)] (scan a b k_low k_high (i + length pat)))
               else later [] (scan a b k_low k_high (i + length pat))))"
  by pat_completeness auto
termination
proof (relation "measure (\<lambda>(a, b, k_low, k_high, off). length b - off)")
  show "wf (measure (\<lambda>(a, b, k_low, k_high, off). length b - off))" by simp
next
  fix a :: args and b k_low k_high off i
  assume "bfind b pat off = Some i"
  from bfind_Some [OF this] have "off \<le> i" "i + 3 \<le> length b"
    by (simp_all add: pat_def)
  then show "((a, b, k_low, k_high, i + length pat), (a, b, k_low, k_high, off))
          \<in> measure (\<lambda>(a, b, k_low, k_high, off). length b - off)"
    by (simp add: pat_def)
next
  fix a :: args and b k_low k_high off i
  assume "bfind b pat off = Some i"
  from bfind_Some [OF this] have "off \<le> i" "i + 3 \<le> length b"
    by (simp_all add: pat_def)
  then show "((a, b, k_low, k_high, i + length pat), (a, b, k_low, k_high, off))
          \<in> measure (\<lambda>(a, b, k_low, k_high, off). length b - off)"
    by (simp add: pat_def)
qed

declare scan.simps [simp del]

text \<open>
  \<open>search_ccf(args)\<close> on a file with the contents \<open>b\<close>.  The carrier factor and its
  band are computed before the file is opened; \<open>mmap.mmap\<close> with length 0 maps the whole
  file and raises \<open>ValueError\<close> when the file is empty; then the two signatures are
  compared.  A file that cannot be opened is outside the model.
\<close>

definition magic1 :: "byte list" where
  "magic1 = [0x40, 0xA5, 0x5A, 0x40, 0x5F, 0x43, 0x43, 0x46]"

definition magic2 :: "byte list" where
  "magic2 = [0x43, 0x43, 0x46, 0x00]"

text \<open>
  The first two statements of \<open>search_ccf\<close>: \<open>k = freq2k(args.carrier)\<close> and
  \<open>k_low, k_high = int(k * 0.97), int(k * 1.03)\<close>.
\<close>

definition band :: "int \<Rightarrow> error + (int \<times> int)" where
  "band carrier =
     (case freq2k carrier of
        Inl e \<Rightarrow> Inl e
      | Inr k \<Rightarrow>
          (case py_float k of
             Inl e \<Rightarrow> Inl e
           | Inr fk \<Rightarrow> Inr (py_int (fmul fk lit_0_97), py_int (fmul fk lit_1_03))))"

definition search_ccf :: "args \<Rightarrow> byte list \<Rightarrow> scan_result" where
  "search_ccf a b =
     (case band (args_carrier a) of
        Inl e \<Rightarrow> \<lparr>calls = [], raised = Some e, iters = 0\<rparr>
      | Inr (k_low, k_high) \<Rightarrow>
          if b = [] then \<lparr>calls = [], raised = Some ValueError, iters = 0\<rparr>
          else if take 8 (drop 8 b) \<noteq> magic1 \<or> take 4 (drop 32 b) \<noteq> magic2
          then \<lparr>calls = [], raised = Some RuntimeError, iters = 0\<rparr>
          else scan a b k_low k_high 0)"

text \<open>The big-endian 32-bit value stored at offset \<open>p\<close> of the buffer.\<close>

definition u32_at :: "byte list \<Rightarrow> nat \<Rightarrow> int" where
  "u32_at b p = ((uint (b ! p) * 256 + uint (b ! (p + 1))) * 256 + uint (b ! (p + 2))) * 256
                 + uint (b ! (p + 3))"

text \<open>
  The \<open>n\<close> burst pairs stored from offset \<open>p\<close> on, as the flat list on, off, on, off, ...
\<close>

definition pulses_at :: "byte list \<Rightarrow> nat \<Rightarrow> nat \<Rightarrow> int list" where
  "pulses_at b p n = concat (map (\<lambda>j. [u16_at b (p + 4 * j), u16_at b (p + 4 * j + 2)]) [0..<n])"

section \<open>A sample file\<close>

text \<open>
  A file of 58 bytes with both signatures and one button block at offset 36: size 22,
  name at offset 16 (length byte \<open>l\<close>, then \<open>OK\<close>), carrier factor \<open>k\<close>, one once pair
  and one repeat pair.  \<open>plain\<close> is the command line without options.
\<close>

definition sample_file :: "byte \<Rightarrow> byte \<Rightarrow> byte list" where
  "sample_file l k =
     [0x01, 0x01, 0x01, 0x01, 0x01, 0x01, 0x01, 0x01,
      0x40, 0xA5, 0x5A, 0x40, 0x5F, 0x43, 0x43, 0x46,
      l, 0x4F, 0x4B, 0x01, 0x01, 0x01, 0x01, 0x01,
      0x01, 0x01, 0x01, 0x01, 0x01, 0x01, 0x01, 0x01,
      0x43, 0x43, 0x46, 0x00,
      0x00, 0x16, 0x00, 0x00, 0x00, 0x10, 0x00, 0x00, 0x00, k, 0x00, 0x01, 0x00, 0x01,
      0x00, 0x60, 0x00, 0x18,
      0x00, 0x30, 0x00, 0x18]"

definition plain :: args where
  "plain = \<lparr>args_lirc = False, args_rescale = None, args_carrier = 40000\<rparr>"

text \<open>
  The sample file with the low byte of the name offset changed to 64, an offset beyond
  the end of the 58 bytes.
\<close>

definition stray_name_file :: "byte list" where
  "stray_name_file = take 41 (sample_file 2 105) @ [0x40] @ drop 42 (sample_file 2 105)"

section \<open>The fast filter of the specification\<close>

text \<open>
  The fast filter as section 4.2 of the specification words it, with exact arithmetic:
  the band is inclusive, \<open>k_low = floor(0.97 k)\<close>, \<open>k_high = ceil(1.03 k)\<close> and
  \<open>k = floor(1000000 / (carrier \<times> 0.241246))\<close>.
\<close>

definition spec_k_target :: "int \<Rightarrow> int" where
  "spec_k_target carrier_hz = \<lfloor>1000000 / (of_int carrier_hz * (241246 / 1000000) :: rat)\<rfloor>"

definition spec_fast_filter :: "int \<Rightarrow> byte list \<Rightarrow> nat \<Rightarrow> bool" where
  "spec_fast_filter carrier_hz b i =
     (let k = spec_k_target carrier_hz;
          k_low = \<lfloor>(97 / 100 :: rat) * of_int k\<rfloor>;
          k_high = \<lceil>(103 / 100 :: rat) * of_int k\<rceil>
      in b ! (i + 4) = 0 \<and> b ! (i + 6) = 0 \<and>
         k_low \<le> uint (b ! (i + 3)) \<and> uint (b ! (i + 3)) \<le> k_high)"

section \<open>Pulse sequence decoder\<close>

lemma be_two: "be [h, l] = uint h * 256 + uint l"
  by (simp add: be_def)

lemma take2_drop:
  assumes "p + 2 \<le> length b"
  shows "take 2 (drop p b) = [b ! p, b ! (p + 1)]"
proof (rule nth_equalityI)
  show "length (take 2 (drop p b)) = length [b ! p, b ! (p + 1)]"
    using assms by simp
next
  fix i assume "i < length (take 2 (drop p b))"
  then have "i = 0 \<or> i = 1" by auto
  then show "take 2 (drop p b) ! i = [b ! p, b ! (p + 1)] ! i"
    using assms by auto
qed

lemma pair_unpack_from_in_range:
  assumes "p + 4 \<le> length b"
  shows "pair_unpack_from b (int p) = Inr (u16_at b p, u16_at b (p + 2))"
proof -
  have a: "take 2 (take 4 (drop p b)) = [b ! p, b ! (p + 1)]"
    using assms by (simp add: take2_drop)
  have "take 2 (drop 2 (take 4 (drop p b))) = take 2 (drop (p + 2) b)"
    by (simp add: drop_take add.commute)
  also have "\<dots> = [b ! (p + 2), b ! (p + 2 + 1)]"
    using assms by (intro take2_drop) simp
  also have "p + 2 + 1 = p + 3" by simp
  finally have c: "take 2 (drop 2 (take 4 (drop p b))) = [b ! (p + 2), b ! (p + 3)]" .
  show ?thesis
    using assms
    by (simp add: pair_unpack_from_def unpack_from_def take2_drop c be_two u16_at_def numeral_3_eq_3)
qed

lemma unpack_seq_loop_in_range:
  assumes "p + 4 * n \<le> length b"
  shows "unpack_seq_loop b (int i) n (int p - int i) r =
         Inr (r @ concat (map (\<lambda>j. [u16_at b (p + 4 * j), u16_at b (p + 4 * j + 2)]) [0..<n]))"
  using assms
proof (induction n arbitrary: p r)
  case 0
  then show ?case by simp
next
  case (Suc n)
  have pr: "pair_unpack_from b (int p) = Inr (u16_at b p, u16_at b (p + 2))"
    using Suc.prems by (intro pair_unpack_from_in_range) simp
  have ih: "unpack_seq_loop b (int i) n (int (p + 4) - int i) (r @ [u16_at b p, u16_at b (p + 2)]) =
        Inr ((r @ [u16_at b p, u16_at b (p + 2)]) @
             concat (map (\<lambda>j. [u16_at b (p + 4 + 4 * j), u16_at b (p + 4 + 4 * j + 2)]) [0..<n]))"
    using Suc.prems by (intro Suc.IH) simp
  have sh: "map (\<lambda>j. [u16_at b (p + 4 * j), u16_at b (p + 4 * j + 2)]) [0..<Suc n] =
        [u16_at b p, u16_at b (p + 2)] #
        map (\<lambda>j. [u16_at b (p + 4 + 4 * j), u16_at b (p + 4 + 4 * j + 2)]) [0..<n]"
    by (simp add: upt_conv_Cons map_Suc_upt [symmetric] add.assoc del: upt_Suc)
  have off: "int p - int i + 4 = int (p + 4) - int i" by simp
  show ?case
    unfolding sh using pr ih by (simp add: off del: upt_Suc)
qed

lemma length_pairs: "length (concat (map (\<lambda>j. [f j, g j]) [0..<n])) = 2 * n"
  by (induction n) simp_all

lemma nth_pairs:
  assumes "j < n"
  shows "concat (map (\<lambda>j. [f j, g j]) [0..<n]) ! (2 * j) = f j"
    and "concat (map (\<lambda>j. [f j, g j]) [0..<n]) ! (2 * j + 1) = g j"
  using assms
proof (induction n)
  case 0
  { case 1 then show ?case by simp }
  { case 2 then show ?case by simp }
next
  case (Suc n)
  { case 1
    show ?case
    proof (cases "j < n")
      case True
      then show ?thesis using Suc.IH(1) by (simp add: nth_append length_pairs)
    next
      case False
      with 1 have "j = n" by simp
      then show ?thesis by (simp add: nth_append length_pairs)
    qed }
  { case 2
    show ?case
    proof (cases "j < n")
      case True
      then show ?thesis using Suc.IH(2) by (simp add: nth_append length_pairs)
    next
      case False
      with 2 have "j = n" by simp
      then show ?thesis by (simp add: nth_append length_pairs)
    qed }
qed

lemma u16_at_range: "0 \<le> u16_at b p \<and> u16_at b p < 65536"
proof -
  have "uint (b ! p) < 256" "uint (b ! (p + 1)) < 256"
    using uint_bounded [of "b ! p"] uint_bounded [of "b ! (p + 1)"] by simp_all
  moreover have "0 \<le> uint (b ! p)" "0 \<le> uint (b ! (p + 1))" by simp_all
  ultimately show ?thesis unfolding u16_at_def by linarith
qed

lemma u16_at_slice:
  assumes "take m (drop i b') = take m (drop i b)" and "k + 2 \<le> m"
    and "i + m \<le> length b" and "i + m \<le> length b'"
  shows "u16_at b' (i + k) = u16_at b (i + k)"
proof -
  have nth: "b' ! (i + q) = b ! (i + q)" if "q < m" for q
  proof -
    have "take m (drop i b') ! q = take m (drop i b) ! q" using assms(1) by simp
    then show ?thesis using that assms(3,4) by simp
  qed
  have "b' ! (i + k) = b ! (i + k)" using nth [of k] assms(2) by simp
  moreover have "b' ! (i + k + 1) = b ! (i + k + 1)"
    using nth [of "k + 1"] assms(2) by (simp add: add.assoc)
  ultimately show ?thesis by (simp add: u16_at_def)
qed

text \<open>
  C5.  When the \<open>4n\<close> bytes from offset \<open>i\<close> lie inside the buffer, \<open>unpack_seq\<close> returns
  a list of exactly \<open>2n\<close> values, each an unsigned 16-bit number; element \<open>2j\<close> is the
  big-endian value at \<open>i + 4j\<close> (on time) and element \<open>2j + 1\<close> the one at \<open>i + 4j + 2\<close>
  (off time).  The result is determined by those \<open>4n\<close> bytes alone: any other buffer that
  agrees on them yields the same list.
\<close>

theorem unpack_seq_decodes:
  assumes "i + 4 * n \<le> length b"
  shows "\<exists>xs. unpack_seq b (int i) n = Inr xs \<and> length xs = 2 * n \<and>
           (\<forall>x \<in> set xs. 0 \<le> x \<and> x < 65536) \<and>
           (\<forall>j < n. xs ! (2 * j) = u16_at b (i + 4 * j) \<and>
                     xs ! (2 * j + 1) = u16_at b (i + 4 * j + 2)) \<and>
           (\<forall>b'. i + 4 * n \<le> length b' \<and>
                  take (4 * n) (drop i b') = take (4 * n) (drop i b) \<longrightarrow>
                  unpack_seq b' (int i) n = Inr xs)"
proof -
  let ?f = "\<lambda>c j. [u16_at c (i + 4 * j), u16_at c (i + 4 * j + 2)]"
  let ?xs = "concat (map (?f b) [0..<n])"
  have run: "unpack_seq c (int i) n = Inr (concat (map (?f c) [0..<n]))"
    if "i + 4 * n \<le> length c" for c
    using unpack_seq_loop_in_range [OF that, of i "[]"] by (simp add: unpack_seq_def)
  have rng: "\<forall>x \<in> set ?xs. 0 \<le> x \<and> x < 65536"
    using u16_at_range by auto
  have elems: "\<forall>j < n. ?xs ! (2 * j) = u16_at b (i + 4 * j) \<and>
                 ?xs ! (2 * j + 1) = u16_at b (i + 4 * j + 2)"
    using nth_pairs [of _ n "\<lambda>j. u16_at b (i + 4 * j)" "\<lambda>j. u16_at b (i + 4 * j + 2)"]
    by simp
  have same: "unpack_seq b' (int i) n = Inr ?xs"
    if len: "i + 4 * n \<le> length b'"
      and eq: "take (4 * n) (drop i b') = take (4 * n) (drop i b)" for b'
  proof -
    have "?f b' j = ?f b j" if "j < n" for j
    proof -
      have "u16_at b' (i + 4 * j) = u16_at b (i + 4 * j)"
        using that by (intro u16_at_slice [OF eq _ assms len]) simp
      moreover have "u16_at b' (i + (4 * j + 2)) = u16_at b (i + (4 * j + 2))"
        using that by (intro u16_at_slice [OF eq _ assms len]) simp
      ultimately show ?thesis by (simp add: add.assoc)
    qed
    then have meq: "map (?f b') [0..<n] = map (?f b) [0..<n]" by simp
    show ?thesis unfolding run [OF len] meq by (rule refl)
  qed
  show ?thesis
    using run [OF assms] rng elems same by (intro exI [of _ ?xs]) (simp add: length_pairs)
qed

theorem unpack_seq_decodes_witness:
  "unpack_seq [0x00, 0x60, 0x00, 0x18, 0x01, 0x02, 0xFF, 0xFE, 0x07] 0 2 = Inr [96, 24, 258, 65534]"
proof -
  let ?b = "[0x00, 0x60, 0x00, 0x18, 0x01, 0x02, 0xFF, 0xFE, 0x07] :: byte list"
  have h: "0 + 4 * 2 \<le> length ?b" by simp
  from unpack_seq_decodes [OF h] obtain xs where r: "unpack_seq ?b (int 0) 2 = Inr xs"
    and l: "length xs = 2 * 2"
    and e: "\<forall>j < 2. xs ! (2 * j) = u16_at ?b (0 + 4 * j) \<and> xs ! (2 * j + 1) = u16_at ?b (0 + 4 * j + 2)"
    by blast
  have n: "xs ! 0 = 96" "xs ! 1 = 24" "xs ! 2 = 258" "xs ! 3 = 65534"
    using e [rule_format, of 0] e [rule_format, of 1] by (simp_all add: u16_at_def)
  have "xs = [xs ! 0, xs ! 1, xs ! 2, xs ! 3]"
    using l by (intro nth_equalityI) (auto simp: nth_Cons' less_Suc_eq numeral_eq_Suc)
  with n r show ?thesis by simp
qed

section \<open>The scan loop\<close>

lemma length_pat: "length pat = 3"
  by (simp add: pat_def)

lemma scan_unfold_None:
  "bfind b pat off = None \<Longrightarrow> scan a b kl kh off = \<lparr>calls = [], raised = None, iters = 1\<rparr>"
  by (simp add: scan.simps [of a b kl kh off])

lemma scan_unfold_raise:
  "bfind b pat off = Some i \<Longrightarrow> heuristic b i kl kh = Inl e \<Longrightarrow>
   scan a b kl kh off = \<lparr>calls = [], raised = Some e, iters = 1\<rparr>"
  by (simp add: scan.simps [of a b kl kh off])

lemma scan_unfold_skip:
  "bfind b pat off = Some i \<Longrightarrow> heuristic b i kl kh = Inr False \<Longrightarrow>
   scan a b kl kh off = later [] (scan a b kl kh (i + 3))"
  by (simp add: scan.simps [of a b kl kh off] length_pat)

lemma scan_unfold_fatal:
  "bfind b pat off = Some i \<Longrightarrow> heuristic b i kl kh = Inr True \<Longrightarrow>
   dump_button b i a = (ls, Some e) \<Longrightarrow>
   scan a b kl kh off = \<lparr>calls = [(i, ls)], raised = Some e, iters = 1\<rparr>"
  by (simp add: scan.simps [of a b kl kh off])

lemma scan_unfold_next:
  "bfind b pat off = Some i \<Longrightarrow> heuristic b i kl kh = Inr True \<Longrightarrow>
   dump_button b i a = (ls, None) \<Longrightarrow>
   scan a b kl kh off = later [(i, ls)] (scan a b kl kh (i + 3))"
  by (simp add: scan.simps [of a b kl kh off] length_pat)

lemma scan_calls_bounds:
  "(i, ls) \<in> set (calls (scan a b kl kh off)) \<Longrightarrow> off \<le> i \<and> i + 3 \<le> length b"
proof (induction a b kl kh off rule: scan.induct)
  case (1 a b kl kh off)
  show ?case
  proof (cases "bfind b pat off")
    case None
    with 1(3) show ?thesis by (simp add: scan_unfold_None)
  next
    case (Some m)
    from bfind_Some [OF Some] have m: "off \<le> m" "m + 3 \<le> length b" by (simp_all add: length_pat)
    show ?thesis
    proof (cases "heuristic b m kl kh")
      case (Inl e)
      with Some 1(3) show ?thesis by (simp add: scan_unfold_raise)
    next
      case (Inr ok)
      show ?thesis
      proof (cases ok)
        case False
        with Some Inr 1(3) have "(i, ls) \<in> set (calls (scan a b kl kh (m + length pat)))"
          by (simp add: scan_unfold_skip later_def length_pat)
        from 1(2) [OF Some Inr False this] m show ?thesis by (simp add: length_pat)
      next
        case True
        obtain ms r where d: "dump_button b m a = (ms, r)" by (cases "dump_button b m a")
        show ?thesis
        proof (cases r)
          case None
          with Some Inr True d 1(3)
          have "(i, ls) = (m, ms) \<or> (i, ls) \<in> set (calls (scan a b kl kh (m + length pat)))"
            by (simp add: scan_unfold_next later_def length_pat)
          then show ?thesis
          proof
            assume "(i, ls) = (m, ms)" with m show ?thesis by simp
          next
            assume "(i, ls) \<in> set (calls (scan a b kl kh (m + length pat)))"
            from 1(1) [OF Some Inr True d [symmetric] None this] m show ?thesis
              by (simp add: length_pat)
          qed
        next
          case (Some e)
          with \<open>bfind b pat off = Some m\<close> Inr True d 1(3) m show ?thesis
            by (simp add: scan_unfold_fatal)
        qed
      qed
    qed
  qed
qed


lemma scan_induct5 [consumes 0, case_names None Raise Skip Fatal Next]:
  assumes none: "\<And>off. bfind b pat off = None \<Longrightarrow> P off"
    and rais: "\<And>off i e. bfind b pat off = Some i \<Longrightarrow> heuristic b i kl kh = Inl e \<Longrightarrow> P off"
    and skip: "\<And>off i. bfind b pat off = Some i \<Longrightarrow> heuristic b i kl kh = Inr False \<Longrightarrow>
                 P (i + 3) \<Longrightarrow> P off"
    and fatal: "\<And>off i ls e. bfind b pat off = Some i \<Longrightarrow> heuristic b i kl kh = Inr True \<Longrightarrow>
                 dump_button b i a = (ls, Some e) \<Longrightarrow> P off"
    and nxt: "\<And>off i ls. bfind b pat off = Some i \<Longrightarrow> heuristic b i kl kh = Inr True \<Longrightarrow>
                 dump_button b i a = (ls, None) \<Longrightarrow> P (i + 3) \<Longrightarrow> P off"
  shows "P off"
proof (induction "length b - off" arbitrary: off rule: less_induct)
  case less
  show ?case
  proof (cases "bfind b pat off")
    case None
    then show ?thesis by (rule none)
  next
    case (Some m)
    from bfind_Some [OF Some] have "off \<le> m" "m + 3 \<le> length b"
      by (simp_all add: length_pat)
    then have "length b - (m + 3) < length b - off" by arith
    then have ih: "P (m + 3)" by (rule less)
    show ?thesis
    proof (cases "heuristic b m kl kh")
      case (Inl e)
      with Some show ?thesis by (rule rais)
    next
      case (Inr ok)
      show ?thesis
      proof (cases ok)
        case False
        with Some Inr ih show ?thesis by (intro skip [of off m]) simp_all
      next
        case True
        obtain ms r where d: "dump_button b m a = (ms, r)" by (cases "dump_button b m a")
        show ?thesis
        proof (cases r)
          case None
          with Some Inr True d ih show ?thesis by (intro nxt [of off m ms]) simp_all
        next
          case (Some e)
          with \<open>bfind b pat off = Some m\<close> Inr True d show ?thesis
            by (intro fatal [of off m ms e]) simp_all
        qed
      qed
    qed
  qed
qed

lemma scan_sorted: "sorted_wrt (<) (map fst (calls (scan a b kl kh off)))"
proof (induction off rule: scan_induct5 [of b _ kl kh a])
  case (None off)
  then show ?case by (simp add: scan_unfold_None)
next
  case (Raise off i e)
  then show ?case by (simp add: scan_unfold_raise)
next
  case (Skip off i)
  then show ?case by (simp add: scan_unfold_skip later_def)
next
  case (Fatal off i ls e)
  then show ?case by (simp add: scan_unfold_fatal)
next
  case (Next off i ls)
  have "i < j" if "j \<in> set (map fst (calls (scan a b kl kh (i + 3))))" for j
  proof -
    from that obtain ms where "(j, ms) \<in> set (calls (scan a b kl kh (i + 3)))" by auto
    from scan_calls_bounds [OF this] show ?thesis by simp
  qed
  then have "\<forall>j \<in> set (map fst (calls (scan a b kl kh (i + 3)))). i < j" by blast
  with Next(4) have "sorted_wrt (<) (i # map fst (calls (scan a b kl kh (i + 3))))"
    by (simp only: sorted_wrt.simps)
  then show ?case using Next(1-3) by (simp add: scan_unfold_next later_def)
qed

lemma step_budget:
  assumes "off \<le> i" and "i + 3 \<le> length (b :: 'a list)"
  shows "(length b - (i + 3)) div 3 + 1 \<le> (length b - off) div 3"
proof -
  have "(length b - (i + 3)) div 3 + 1 = (length b - (i + 3) + 3) div 3" by simp
  also have "length b - (i + 3) + 3 = length b - i" using assms(2) by simp
  also have "(length b - i) div 3 \<le> (length b - off) div 3"
    using assms(1) by (intro div_le_mono) simp
  finally show ?thesis .
qed

lemma scan_iters: "iters (scan a b kl kh off) \<le> (length b - off) div 3 + 1"
proof (induction off rule: scan_induct5 [of b _ kl kh a])
  case (None off)
  then show ?case by (simp add: scan_unfold_None)
next
  case (Raise off i e)
  then show ?case by (simp add: scan_unfold_raise)
next
  case (Skip off i)
  from bfind_Some [OF Skip(1)] have "off \<le> i" "i + 3 \<le> length b" by (simp_all add: length_pat)
  then have "(length b - (i + 3)) div 3 + 1 \<le> (length b - off) div 3"
    by (rule step_budget)
  with Skip show ?case by (simp add: scan_unfold_skip later_def)
next
  case (Fatal off i ls e)
  then show ?case by (simp add: scan_unfold_fatal)
next
  case (Next off i ls)
  from bfind_Some [OF Next(1)] have "off \<le> i" "i + 3 \<le> length b" by (simp_all add: length_pat)
  then have "(length b - (i + 3)) div 3 + 1 \<le> (length b - off) div 3"
    by (rule step_budget)
  with Next show ?case by (simp add: scan_unfold_next later_def)
qed

section \<open>Rounding\<close>

lemma bits_bounds: "0 < n \<Longrightarrow> 2 ^ (bits n - 1) \<le> n \<and> n < 2 ^ bits n"
proof (induction n rule: bits.induct)
  case (1 n)
  show ?case
  proof (cases "n div 2 = 0")
    case True
    with 1 have "n = 1" by (simp add: div_eq_0_iff) 
    then show ?thesis by (simp add: bits.simps)
  next
    case False
    then have h: "0 < n div 2" by simp
    from 1 have n0: "n \<noteq> 0" by simp
    from 1(1) [OF n0 h] have a: "2 ^ (bits (n div 2) - 1) \<le> n div 2" and b: "n div 2 < 2 ^ bits (n div 2)"
      by simp_all
    have bp: "0 < bits (n div 2)" using h by (subst bits.simps) simp
    have e: "bits n = Suc (bits (n div 2))" using n0 by (subst bits.simps) simp
    have "2 ^ bits (n div 2) = (2::nat) * 2 ^ (bits (n div 2) - 1)"
      using bp by (cases "bits (n div 2)") simp_all
    then have "2 ^ bits (n div 2) \<le> 2 * (n div 2)" using a by simp
    also have "\<dots> \<le> n" by simp
    finally have lo: "2 ^ (bits n - 1) \<le> n" by (simp add: e)
    have "n < 2 * (n div 2) + 2" by presburger
    also have "\<dots> \<le> 2 * 2 ^ bits (n div 2)" using b by simp
    finally have "n < 2 ^ bits n" by (simp add: e)
    with lo show ?thesis by simp
  qed
qed

lemma expo_bounds:
  assumes "x \<noteq> 0"
  shows "2 powi (expo x) \<le> \<bar>x\<bar>" and "\<bar>x\<bar> < 2 powi (expo x + 1)"
proof -
  obtain n d where q: "quotient_of \<bar>x\<bar> = (n, d)" by (cases "quotient_of \<bar>x\<bar>")
  then have xd: "\<bar>x\<bar> = of_int n / of_int d" and dpos: "0 < d"
    by (simp_all add: quotient_of_div quotient_of_denom_pos)
  have npos: "0 < n"
  proof -
    have "0 < \<bar>x\<bar>" using assms by simp
    then have "0 < (of_int n :: rat) / of_int d" using xd by simp
    then show ?thesis using dpos by (simp add: zero_less_divide_iff)
  qed
  define bn where "bn = bits (nat n)"
  define bd where "bd = bits (nat d)"
  define s where "s = int bn - int bd"
  have nb: "2 ^ (bn - 1) \<le> nat n" "nat n < 2 ^ bn"
    using bits_bounds [of "nat n"] npos by (simp_all add: bn_def)
  have db: "2 ^ (bd - 1) \<le> nat d" "nat d < 2 ^ bd"
    using bits_bounds [of "nat d"] dpos by (simp_all add: bd_def)
  have bnp: "0 < bn" using nb(2) npos by (cases bn) simp_all
  have bdp: "0 < bd" using db(2) dpos by (cases bd) simp_all
  have nr: "(2::rat) ^ (bn - 1) \<le> of_int n" "(of_int n :: rat) < 2 ^ bn"
  proof -
    have "(of_nat (2 ^ (bn - 1)) :: rat) \<le> of_nat (nat n)" using nb(1) by (simp only: of_nat_le_iff)
    then show "(2::rat) ^ (bn - 1) \<le> of_int n" using npos by simp
    have "(of_nat (nat n) :: rat) < of_nat (2 ^ bn)" using nb(2) by (simp only: of_nat_less_iff)
    then show "(of_int n :: rat) < 2 ^ bn" using npos by simp
  qed
  have dr: "(2::rat) ^ (bd - 1) \<le> of_int d" "(of_int d :: rat) < 2 ^ bd"
  proof -
    have "(of_nat (2 ^ (bd - 1)) :: rat) \<le> of_nat (nat d)" using db(1) by (simp only: of_nat_le_iff)
    then show "(2::rat) ^ (bd - 1) \<le> of_int d" using dpos by simp
    have "(of_nat (nat d) :: rat) < of_nat (2 ^ bd)" using db(2) by (simp only: of_nat_less_iff)
    then show "(of_int d :: rat) < 2 ^ bd" using dpos by simp
  qed
  have dposr: "0 < (of_int d :: rat)" using dpos by simp
  have ps: "(2::rat) powi s = 2 ^ bn / 2 ^ bd"
    by (simp add: s_def power_int_diff)
  have hi: "\<bar>x\<bar> < 2 powi (s + 1)"
  proof -
    have "(2::rat) ^ bd = 2 * 2 ^ (bd - 1)" using bdp by (cases bd) simp_all
    then have "(2::rat) ^ bd \<le> 2 * of_int d" using dr(1) by simp
    then have "of_int n * (2::rat) ^ bd < 2 ^ bn * (2 * of_int d)"
      using nr(2) npos by (intro mult_less_le_imp_less) simp_all
    then have "of_int n / of_int d < (2::rat) * 2 ^ bn / 2 ^ bd"
      using dposr by (simp add: field_simps)
    then show ?thesis by (simp add: xd power_int_add ps mult.commute)
  qed
  have lo: "2 powi (s - 1) < \<bar>x\<bar>"
  proof -
    have "(2::rat) ^ bn = 2 * 2 ^ (bn - 1)" using bnp by (cases bn) simp_all
    then have "(2::rat) ^ bn \<le> 2 * of_int n" using nr(1) by simp
    then have "(2::rat) ^ bn * of_int d < (2 * of_int n) * 2 ^ bd"
      using dr(2) dposr by (intro mult_le_less_imp_less) simp_all
    then have "(2::rat) ^ bn / 2 ^ bd / 2 < of_int n / of_int d"
      using dposr by (simp add: field_simps)
    then show ?thesis by (simp add: xd power_int_diff ps)
  qed
  have ex: "expo x = (if 2 powi s \<le> \<bar>x\<bar> then s else s - 1)"
    by (simp add: expo_def q Let_def s_def bn_def bd_def)
  show "2 powi (expo x) \<le> \<bar>x\<bar>" using lo by (simp add: ex)
  show "\<bar>x\<bar> < 2 powi (expo x + 1)" using hi by (auto simp: ex)
qed

lemma powi2_less_iff: "(2::rat) powi a < 2 powi b \<longleftrightarrow> a < b"
proof
  assume l: "(2::rat) powi a < 2 powi b"
  show "a < b"
  proof (rule ccontr)
    assume "\<not> a < b"
    then have "b \<le> a" by simp
    then have "(2::rat) powi b \<le> 2 powi a" by (intro power_int_increasing) simp_all
    with l show False by simp
  qed
next
  assume "a < b"
  then show "(2::rat) powi a < 2 powi b" by (intro power_int_strict_increasing) simp_all
qed

lemma powi2_pos: "(0::rat) < 2 powi e"
  by (simp add: zero_less_power_int)

lemma expo_unique:
  assumes "2 powi e \<le> \<bar>x\<bar>" and "\<bar>x\<bar> < 2 powi (e + 1)"
  shows "expo x = e"
proof -
  have nz: "x \<noteq> 0"
  proof
    assume "x = 0"
    with assms(1) have "(2::rat) powi e \<le> 0" by simp
    with powi2_pos [of e] show False by linarith
  qed
  note b = expo_bounds [OF nz]
  have "(2::rat) powi (expo x) < 2 powi (e + 1)" using b(1) assms(2) by simp
  then have 1: "expo x < e + 1" by (simp only: powi2_less_iff)
  have "(2::rat) powi e < 2 powi (expo x + 1)" using b(2) assms(1) by simp
  then have 2: "e < expo x + 1" by (simp only: powi2_less_iff)
  from 1 2 show ?thesis by simp
qed

lemma round64_eval:
  assumes "2 powi e \<le> \<bar>x\<bar>" and "\<bar>x\<bar> < 2 powi (e + 1)" and "- 1022 \<le> e"
  shows "round64 x = of_int (rne (x / 2 powi (e - 52))) * 2 powi (e - 52)"
proof -
  have nz: "x \<noteq> 0"
  proof
    assume "x = 0"
    with assms(1) have "(2::rat) powi e \<le> 0" by simp
    with powi2_pos [of e] show False by linarith
  qed
  show ?thesis using nz assms(3) by (simp add: round64_def expo_unique [OF assms(1,2)] max_def Let_def)
qed

lemma rne_err: "\<bar>of_int (rne y) - y\<bar> \<le> 1 / 2"
proof -
  have "of_int \<lfloor>y\<rfloor> \<le> y" "y < of_int \<lfloor>y\<rfloor> + 1" by linarith+
  then show ?thesis by (auto simp: rne_def Let_def)
qed

lemma rne_of_int: "rne (of_int z) = z"
  by (simp add: rne_def)

lemma rne_cert:
  assumes "\<bar>y - of_int m\<bar> < 1 / 2"
  shows "rne y = m"
proof -
  define f where "f = \<lfloor>y\<rfloor>"
  have f: "of_int f \<le> y" "y < of_int f + 1" unfolding f_def by linarith+
  from assms have m: "of_int m - 1 / 2 < y" "y < of_int m + 1 / 2" by linarith+
  have "(of_int f :: rat) < of_int (m + 1)" using f(1) m(2) by simp
  then have "f < m + 1" by (simp only: of_int_less_iff)
  then have 1: "f \<le> m" by simp
  have "(of_int (m - 1) :: rat) < of_int (f + 1)" using f(2) m(1) by simp
  then have "m - 1 < f + 1" by (simp only: of_int_less_iff)
  then have 2: "m - 1 \<le> f" by simp
  from 1 2 consider "f = m" | "f = m - 1" by linarith
  then show ?thesis
  proof cases
    case 1
    then have "y - of_int f < 1 / 2" using m(2) by simp
    then show ?thesis using 1 by (simp add: rne_def Let_def f_def [symmetric])
  next
    case 2
    then have "1 / 2 < y - of_int f" using m(1) by simp
    then show ?thesis using 2 by (simp add: rne_def Let_def f_def [symmetric])
  qed
qed

lemma round64_cert:
  assumes "2 powi e \<le> \<bar>x\<bar>" and "\<bar>x\<bar> < 2 powi (e + 1)" and "- 1022 \<le> e"
    and "\<bar>x / 2 powi (e - 52) - of_int m\<bar> < 1 / 2"
  shows "round64 x = of_int m * 2 powi (e - 52)"
  by (simp only: round64_eval [OF assms(1-3)] rne_cert [OF assms(4)])

lemma py_int_cert:
  assumes "of_int m \<le> x" and "x < of_int m + 1" and "0 \<le> m"
  shows "py_int x = m"
proof -
  have "\<lfloor>x\<rfloor> = m" using assms(1,2) by (rule floor_unique)
  moreover have "\<not> x < 0" using assms(1,3) by simp
  ultimately show ?thesis by (simp add: py_int_def)
qed

lemma lit_0_241246_val: "lit_0_241246 = 8691803165636981 / 2 ^ 55"
  unfolding lit_0_241246_def
  by (subst round64_cert [where e = "- 3" and m = 8691803165636981])
     (simp_all add: power_int_minus)

lemma lit_0_97_val: "lit_0_97 = 8736983277098762 / 2 ^ 53"
  unfolding lit_0_97_def
  by (subst round64_cert [where e = "- 1" and m = 8736983277098762])
     (simp_all add: power_int_minus)

lemma lit_1_03_val: "lit_1_03 = 4638707616191611 / 2 ^ 52"
  unfolding lit_1_03_def
  by (subst round64_cert [where e = "0" and m = 4638707616191611])
     (simp_all add: power_int_minus)


lemma round64_err:
  assumes "2 powi (- 1022) \<le> \<bar>x\<bar>"
  shows "\<bar>round64 x - x\<bar> \<le> \<bar>x\<bar> / 2 ^ 53"
proof -
  have nz: "x \<noteq> 0"
  proof
    assume "x = 0"
    with assms have "(2::rat) powi (- 1022) \<le> 0" by simp
    with powi2_pos [of "- 1022"] show False by linarith
  qed
  note b = expo_bounds [OF nz]
  have "(2::rat) powi (- 1022) < 2 powi (expo x + 1)" using b(2) assms by simp
  then have "- 1022 < expo x + 1" by (simp only: powi2_less_iff)
  then have ge: "- 1022 \<le> expo x" by simp
  define e where "e = expo x - 52"
  define y where "y = x / 2 powi e"
  have r: "round64 x = of_int (rne y) * 2 powi e"
    using nz ge by (simp add: round64_def max_def e_def y_def Let_def)
  have x: "y * 2 powi e = x" by (simp add: y_def)
  have "(of_int (rne y) - y) * 2 powi e = of_int (rne y) * 2 powi e - y * 2 powi e"
    by (rule left_diff_distrib)
  then have "round64 x - x = (of_int (rne y) - y) * 2 powi e"
    by (simp only: r x)
  then have "\<bar>round64 x - x\<bar> = \<bar>of_int (rne y) - y\<bar> * 2 powi e"
    by (simp add: abs_mult)
  also have "\<dots> \<le> (1 / 2) * 2 powi e"
    using rne_err [of y] by (intro mult_right_mono) simp_all
  also have "\<dots> = 2 powi (expo x) / 2 ^ 53"
    by (simp add: e_def power_int_diff)
  also have "\<dots> \<le> \<bar>x\<bar> / 2 ^ 53"
    using b(1) by (simp add: divide_right_mono)
  finally show ?thesis .
qed

lemma round64_exact_int:
  assumes "\<bar>z\<bar> < 2 ^ 53"
  shows "round64 (of_int z) = of_int z"
proof (cases "z = 0")
  case True
  then show ?thesis by (simp add: round64_def)
next
  case False
  define x :: rat where "x = of_int z"
  have nz: "x \<noteq> 0" using False by (simp add: x_def)
  note b = expo_bounds [OF nz]
  have "1 \<le> \<bar>z\<bar>" using False by simp
  then have "(of_int 1 :: rat) \<le> of_int \<bar>z\<bar>" by (simp only: of_int_le_iff)
  then have "1 \<le> \<bar>x\<bar>" by (simp add: x_def)
  then have "(2::rat) powi 0 < 2 powi (expo x + 1)" using b(2) by simp
  then have "0 < expo x + 1" by (simp only: powi2_less_iff)
  then have ge0: "0 \<le> expo x" by simp
  have "(of_int \<bar>z\<bar> :: rat) < of_int (2 ^ 53)" using assms by (simp only: of_int_less_iff)
  then have "\<bar>x\<bar> < 2 powi 53" by (simp add: x_def)
  then have "(2::rat) powi (expo x) < 2 powi 53" using b(1) by simp
  then have le: "expo x < 53" by (simp only: powi2_less_iff)
  define k where "k = nat (52 - expo x)"
  have e: "expo x - 52 = - int k" using le by (simp add: k_def)
  have "x / 2 powi (expo x - 52) = x * 2 ^ k"
    by (simp add: e power_int_minus field_simps)
  also have "\<dots> = of_int (z * 2 ^ k)" by (simp add: x_def)
  finally have y: "x / 2 powi (expo x - 52) = of_int (z * 2 ^ k)" .
  have "round64 x = of_int (rne (x / 2 powi (expo x - 52))) * 2 powi (expo x - 52)"
    using nz ge0 by (simp add: round64_def max_def Let_def)
  also have "\<dots> = of_int (z * 2 ^ k) * 2 powi (expo x - 52)"
    by (simp only: y rne_of_int)
  also have "\<dots> = of_int (z * 2 ^ k) * 2 powi (- int k)"
    by (simp only: e)
  also have "\<dots> = x" by (simp add: x_def power_int_minus field_simps)
  finally show ?thesis by (simp add: x_def)
qed

lemma py_float_exact:
  assumes "\<bar>z\<bar> < 2 ^ 53"
  shows "py_float z = Inr (of_int z)"
proof -
  have "(of_int \<bar>z\<bar> :: rat) < of_int (2 ^ 53)" using assms by (simp only: of_int_less_iff)
  then have "\<bar>of_int z :: rat\<bar> < 2 ^ 53" by simp
  also have "(2::rat) ^ 53 \<le> 2 ^ 1024" by (intro power_increasing) simp_all
  finally have "\<not> (2::rat) ^ 1024 \<le> \<bar>of_int z\<bar>" by simp
  then show ?thesis by (simp add: py_float_def round64_exact_int [OF assms] Let_def)
qed

lemma freq2k_40000: "freq2k 40000 = Inr 103"
proof -
  have f: "py_float 40000 = Inr 40000"
    using py_float_exact [of 40000] by simp
  have p: "fmul 40000 lit_0_241246 = 5305055643088978 / 2 ^ 39"
    unfolding fmul_def lit_0_241246_val
    by (subst round64_cert [where e = 13 and m = 5305055643088978])
       (simp_all add: power_int_minus)
  have q: "fdiv 1000000 (5305055643088978 / 2 ^ 39) = Inr (7292218749498852 / 2 ^ 46)"
    unfolding fdiv_def
    by (subst round64_cert [where e = 6 and m = 7292218749498852])
       (simp_all add: power_int_minus)
  have i: "py_int (7292218749498852 / 2 ^ 46) = 103"
    by (rule py_int_cert) simp_all
  show ?thesis by (simp only: freq2k_def f p q i sum.case)
qed

section \<open>Decoding a header, and which exceptions can occur\<close>

lemma take4_drop:
  assumes "p + 4 \<le> length b"
  shows "take 4 (drop p b) = [b ! p, b ! (p + 1), b ! (p + 2), b ! (p + 3)]"
proof -
  have "take 4 (drop p b) = take 2 (drop p b) @ take 2 (drop 2 (drop p b))"
    using take_add [of 2 2 "drop p b"] by simp
  also have "take 2 (drop p b) = [b ! p, b ! (p + 1)]" using assms by (intro take2_drop) simp
  also have "take 2 (drop 2 (drop p b)) = take 2 (drop (p + 2) b)" by (simp add: add.commute)
  also have "\<dots> = [b ! (p + 2), b ! (p + 2 + 1)]" using assms by (intro take2_drop) simp
  also have "p + 2 + 1 = p + 3" by simp
  finally show ?thesis by simp
qed

lemma be_four: "be [a, b, c, d] = ((uint a * 256 + uint b) * 256 + uint c) * 256 + uint d"
  by (simp add: be_def)

lemma unpack_header:
  assumes "h + 14 \<le> length b"
  shows "unpack_from 14 b (int (h + 6) - 6) = Inr (take 14 (drop h b))"
  using assms by (simp add: unpack_from_def)

lemma header_fields:
  assumes "h + 14 \<le> length b"
  shows "be (take 2 (take 14 (drop h b))) = u16_at b h"
    and "be (take 4 (drop 2 (take 14 (drop h b)))) = u32_at b (h + 2)"
    and "be (take 2 (drop 8 (take 14 (drop h b)))) = u16_at b (h + 8)"
    and "be (take 2 (drop 10 (take 14 (drop h b)))) = u16_at b (h + 10)"
    and "be (take 2 (drop 12 (take 14 (drop h b)))) = u16_at b (h + 12)"
proof -
  have two: "be (take 2 (drop q b)) = u16_at b q" if "q + 2 \<le> length b" for q
    using that by (simp add: take2_drop be_two u16_at_def)
  show "be (take 2 (take 14 (drop h b))) = u16_at b h"
    using two [of h] assms by simp
  have "take 4 (drop 2 (take 14 (drop h b))) = take 4 (drop (h + 2) b)"
    by (simp add: drop_take add.commute)
  then show "be (take 4 (drop 2 (take 14 (drop h b)))) = u32_at b (h + 2)"
    using assms take4_drop [of "h + 2" b] by (simp add: be_four u32_at_def add.assoc)
  have "take 2 (drop 8 (take 14 (drop h b))) = take 2 (drop (h + 8) b)"
    by (simp add: drop_take add.commute)
  then show "be (take 2 (drop 8 (take 14 (drop h b)))) = u16_at b (h + 8)"
    using two [of "h + 8"] assms by simp
  have "take 2 (drop 10 (take 14 (drop h b))) = take 2 (drop (h + 10) b)"
    by (simp add: drop_take add.commute)
  then show "be (take 2 (drop 10 (take 14 (drop h b)))) = u16_at b (h + 10)"
    using two [of "h + 10"] assms by simp
  have "take 2 (drop 12 (take 14 (drop h b))) = take 2 (drop (h + 12) b)"
    by (simp add: drop_take add.commute)
  then show "be (take 2 (drop 12 (take 14 (drop h b)))) = u16_at b (h + 12)"
    using two [of "h + 12"] assms by simp
qed


lemma pair_unpack_from_short:
  "length b < p + 4 \<Longrightarrow> pair_unpack_from b (int p) = Inl StructError"
  by (simp add: pair_unpack_from_def unpack_from_def)

lemma unpack_seq_loop_short:
  assumes "0 < n" and "length b < p + 4 * n"
  shows "unpack_seq_loop b (int i) n (int p - int i) r = Inl StructError"
  using assms
proof (induction n arbitrary: p r)
  case 0
  then show ?case by simp
next
  case (Suc n)
  have o: "int i + (int p - int i) = int p" by simp
  show ?case
  proof (cases "length b < p + 4")
    case True
    then show ?thesis by (simp add: o pair_unpack_from_short)
  next
    case False
    then have fit: "p + 4 \<le> length b" by simp
    with Suc.prems have n: "0 < n" by (cases n) simp_all
    have sh: "int p - int i + 4 = int (p + 4) - int i" by simp
    have "unpack_seq_loop b (int i) n (int (p + 4) - int i) (r @ [u16_at b p, u16_at b (p + 2)])
            = Inl StructError"
      using Suc.prems n by (intro Suc.IH) simp_all
    then show ?thesis by (simp add: o pair_unpack_from_in_range [OF fit] sh)
  qed
qed

lemma unpack_seq_short:
  assumes "0 < n" and "length b < p + 4 * n"
  shows "unpack_seq b (int p) n = Inl StructError"
  using unpack_seq_loop_short [OF assms, of p "[]"] by (simp add: unpack_seq_def)

lemma unpack_from_err: "unpack_from sz b off = Inl e \<Longrightarrow> e = StructError"
  by (auto simp: unpack_from_def split: if_splits)

lemma pair_unpack_from_err: "pair_unpack_from b off = Inl e \<Longrightarrow> e = StructError"
  by (auto simp: pair_unpack_from_def split: sum.splits dest: unpack_from_err)

lemma unpack_seq_loop_err: "unpack_seq_loop b i n o' r = Inl e \<Longrightarrow> e = StructError"
  by (induction n arbitrary: o' r) (auto split: sum.splits prod.splits dest: pair_unpack_from_err)

lemma unpack_seq_err: "unpack_seq b i n = Inl e \<Longrightarrow> e = StructError"
  by (simp add: unpack_seq_def unpack_seq_loop_err)

lemma getitem_err: "getitem b p = Inl e \<Longrightarrow> e = IndexError"
  by (auto simp: getitem_def split: if_splits)

lemma heuristic_err: "heuristic b i kl kh = Inl e \<Longrightarrow> e = IndexError"
  by (auto simp: heuristic_def split: sum.splits if_splits dest: getitem_err)

lemma py_float_err: "py_float n = Inl e \<Longrightarrow> e = OverflowError"
  by (auto simp: py_float_def Let_def split: if_splits)

lemma fdiv_err: "fdiv x y = Inl e \<Longrightarrow> e = ZeroDivisionError"
  by (auto simp: fdiv_def split: if_splits)

lemma int_truediv_err: "int_truediv x y = Inl e \<Longrightarrow> e = ZeroDivisionError \<or> e = OverflowError"
  by (auto simp: int_truediv_def Let_def split: if_splits)

lemma freq2k_err: "freq2k f = Inl e \<Longrightarrow> e = ZeroDivisionError \<or> e = OverflowError"
  by (auto simp: freq2k_def split: sum.splits dest: py_float_err fdiv_err)

lemma to_khz_err: "to_khz k = Inl e \<Longrightarrow> e = ZeroDivisionError \<or> e = OverflowError"
  by (auto simp: to_khz_def split: sum.splits dest: py_float_err fdiv_err)

lemma to_usec_err: "to_usec x k = Inl e \<Longrightarrow> e = OverflowError"
  by (auto simp: to_usec_def split: sum.splits dest: py_float_err)

lemma rescale_err: "rescale x old_k k = Inl e \<Longrightarrow> e = ZeroDivisionError \<or> e = OverflowError"
  by (auto simp: rescale_def Let_def split: sum.splits if_splits dest: py_float_err int_truediv_err)

lemma map_raise_err: "map_raise f xs = Inl e \<Longrightarrow> \<exists>x \<in> set xs. f x = Inl e"
  by (induction xs) (auto split: sum.splits)

lemma dump_pairs_err:
  "snd (dump_pairs xs name base a) = Some e \<Longrightarrow> e = ZeroDivisionError \<or> e = OverflowError"
  by (auto simp: dump_pairs_def Let_def split: sum.splits if_splits option.splits
      dest!: map_raise_err dest: to_usec_err rescale_err freq2k_err)

lemma then_out_err:
  "snd (then_out p q) = Some e \<Longrightarrow> snd p = Some e \<or> snd q = Some e"
  by (auto simp: then_out_def split: option.splits)

lemma dump_block_alt:
  "dump_block b i a j base once_k repeat_k =
     (case getitem b (nat j) of
        Inl e \<Rightarrow> ([], Some e)
      | Inr lb \<Rightarrow>
          (case (case args_rescale a of
                   None \<Rightarrow> Inr base
                 | Some hz \<Rightarrow> if hz = 0 then Inr base else freq2k hz) of
             Inl e \<Rightarrow> ([ButtonLine (take (unat lb) (drop (nat j + 1) b))], Some e)
           | Inr baseP \<Rightarrow>
               (case to_khz baseP of
                  Inl e \<Rightarrow> ([ButtonLine (take (unat lb) (drop (nat j + 1) b))], Some e)
                | Inr khz \<Rightarrow>
                    then_out
                      ([ButtonLine (take (unat lb) (drop (nat j + 1) b)), CarrierLine khz baseP,
                        HeaderLine baseP once_k repeat_k], None)
                      (pulse_part b i a base once_k repeat_k))))"
  unfolding dump_block_def pulse_part_def Let_def ..

lemma then_out_nr:
  "snd p \<noteq> Some RuntimeError \<Longrightarrow> snd q \<noteq> Some RuntimeError \<Longrightarrow>
   snd (then_out p q) \<noteq> Some RuntimeError"
  by (auto simp: then_out_def split: option.splits)

lemma dump_pairs_nr: "snd (dump_pairs xs name base a) \<noteq> Some RuntimeError"
  using dump_pairs_err [of xs name base a RuntimeError] by auto

lemma pulse_part_nr: "snd (pulse_part b i a base once_k repeat_k) \<noteq> Some RuntimeError"
proof -
  have r2: "snd (case unpack_seq b (int i + 8 + once_k * 4) (nat repeat_k) of
               Inl e \<Rightarrow> ([], Some e) | Inr ys \<Rightarrow> dump_pairs ys ''repeat'' base a)
            \<noteq> Some RuntimeError"
    by (auto split: sum.splits dest: unpack_seq_err simp: dump_pairs_nr)
  show ?thesis
    unfolding pulse_part_def
    by (cases "unpack_seq b (int i + 8) (nat once_k)")
       (auto dest: unpack_seq_err simp: then_out_nr dump_pairs_nr r2)
qed

lemma dump_block_err:
  assumes "snd (dump_block b i a j base once_k repeat_k) = Some e"
  shows "e \<noteq> RuntimeError"
proof -
  have "snd (dump_block b i a j base once_k repeat_k) \<noteq> Some RuntimeError"
    unfolding dump_block_alt
    by (auto split: sum.splits option.splits if_splits
        dest: getitem_err freq2k_err to_khz_err simp: then_out_nr pulse_part_nr)
  with assms show ?thesis by auto
qed

lemma dump_button_err:
  assumes "snd (dump_button b i a) = Some e"
  shows "e \<noteq> RuntimeError"
  using assms
  by (auto simp: dump_button_def Let_def split: sum.splits if_splits
      dest: unpack_from_err dump_block_err)

lemma scan_no_runtime_error: "raised (scan a b kl kh off) \<noteq> Some RuntimeError"
proof (induction off rule: scan_induct5 [of b _ kl kh a])
  case (None off)
  then show ?case by (simp add: scan_unfold_None)
next
  case (Raise off i e)
  then show ?case by (auto simp: scan_unfold_raise dest: heuristic_err)
next
  case (Skip off i)
  then show ?case by (simp add: scan_unfold_skip later_def)
next
  case (Fatal off i ls e)
  from Fatal(3) have "snd (dump_button b i a) = Some e" by simp
  from dump_button_err [OF this] Fatal show ?case by (simp add: scan_unfold_fatal)
next
  case (Next off i ls)
  then show ?case by (simp add: scan_unfold_next later_def)
qed

section \<open>The scan of the sample file\<close>

lemma bfind_sample_0: "bfind (sample_file l k) pat 0 = Some 38"
  by (simp add: bfind.simps sample_file_def pat_def)

lemma bfind_sample_41: "bfind (sample_file l k) pat (38 + 3) = Some 42"
  by (simp add: bfind.simps sample_file_def pat_def)

lemma bfind_sample_45: "bfind (sample_file l k) pat (42 + 3) = None"
  by (simp add: bfind.simps sample_file_def pat_def)

lemma heuristic_sample_38: "heuristic (sample_file l k) 38 99 106 = Inr False"
  by (simp add: heuristic_def getitem_def sample_file_def)

lemma heuristic_sample_42:
  "heuristic (sample_file l k) 42 kl kh = Inr (kl < uint k \<and> uint k < kh)"
  by (simp add: heuristic_def getitem_def sample_file_def)

lemma band_40000: "band 40000 = Inr (99, 106)"
proof -
  have f: "py_float 103 = Inr 103" using py_float_exact [of 103] by simp
  have "fmul 103 lit_0_97 = 7030541230790410 / 2 ^ 46"
    unfolding fmul_def lit_0_97_val
    by (subst round64_cert [where e = 6 and m = 7030541230790410]) (simp_all add: power_int_minus)
  moreover have "py_int (7030541230790410 / 2 ^ 46) = 99" by (rule py_int_cert) simp_all
  ultimately have lo: "py_int (fmul 103 lit_0_97) = 99" by (simp only:)
  have "fmul 103 lit_1_03 = 7465420069808374 / 2 ^ 46"
    unfolding fmul_def lit_1_03_val
    by (subst round64_cert [where e = 6 and m = 7465420069808374]) (simp_all add: power_int_minus)
  moreover have "py_int (7465420069808374 / 2 ^ 46) = 106" by (rule py_int_cert) simp_all
  ultimately have hi: "py_int (fmul 103 lit_1_03) = 106" by (simp only:)
  show ?thesis by (simp only: band_def freq2k_40000 sum.case f lo hi)
qed

lemma to_khz_105: "to_khz 105 = Inr (5555976190094364 / 2 ^ 47)"
proof -
  have f: "py_float 105 = Inr 105" using py_float_exact [of 105] by simp
  have p: "fmul 105 lit_0_241246 = 7129994784311586 / 2 ^ 48"
    unfolding fmul_def lit_0_241246_val
    by (subst round64_cert [where e = 4 and m = 7129994784311586]) (simp_all add: power_int_minus)
  have q: "fdiv 1000000 (7129994784311586 / 2 ^ 48) = Inr (5425757998139027 / 2 ^ 37)"
    unfolding fdiv_def
    by (subst round64_cert [where e = 15 and m = 5425757998139027]) (simp_all add: power_int_minus)
  have r: "fdiv (5425757998139027 / 2 ^ 37) 1000 = Inr (5555976190094364 / 2 ^ 47)"
    unfolding fdiv_def
    by (subst round64_cert [where e = 5 and m = 5555976190094364]) (simp_all add: power_int_minus)
  show ?thesis by (simp only: to_khz_def f p q r sum.case)
qed

lemma sample_header:
  "length (sample_file l k) = 58"
  "u16_at (sample_file l k) 36 = 22"
  "u32_at (sample_file l k) (36 + 2) = 16"
  "u16_at (sample_file l k) (36 + 8) = uint k"
  "u16_at (sample_file l k) (36 + 10) = 1"
  "u16_at (sample_file l k) (36 + 12) = 1"
  by (simp_all add: sample_file_def u16_at_def u32_at_def)

lemma dump_button_header:
  assumes "h + 14 \<le> length b"
  shows "dump_button b (h + 6) a =
           (if u16_at b h = 6 + 8 + (u16_at b (h + 10) + u16_at b (h + 12)) * (2 + 2)
            then dump_block b (h + 6) a (u32_at b (h + 2)) (u16_at b (h + 8))
                   (u16_at b (h + 10)) (u16_at b (h + 12))
            else ([], None))"
  unfolding dump_button_def unpack_header [OF assms] sum.case Let_def header_fields [OF assms] ..

lemma unpack_seq_sample_once: "unpack_seq (sample_file l k) (int 42 + 8) (nat 1) = Inr [96, 24]"
  by (simp add: unpack_seq_def pair_unpack_from_def unpack_from_def sample_file_def be_def)

lemma unpack_seq_sample_repeat: "unpack_seq (sample_file l k) (int 42 + 8 + 1 * 4) (nat 1) = Inr [48, 24]"
  by (simp add: unpack_seq_def pair_unpack_from_def unpack_from_def sample_file_def be_def)

lemma dump_button_sample:
  "dump_button (sample_file l 105) 42 plain =
     ([ButtonLine (take (unat l) [0x4F, 0x4B, 0x01, 0x01, 0x01, 0x01, 0x01,
      0x01, 0x01, 0x01, 0x01, 0x01, 0x01, 0x01, 0x01,
      0x43, 0x43, 0x46, 0x00,
      0x00, 0x16, 0x00, 0x00, 0x00, 0x10, 0x00, 0x00, 0x00, 105, 0x00, 0x01, 0x00, 0x01,
      0x00, 0x60, 0x00, 0x18,
      0x00, 0x30, 0x00, 0x18]),
       CarrierLine (5555976190094364 / 2 ^ 47) 105, HeaderLine 105 1 1,
       PairsLine ''once'' 1 False, SeqLine [96, 24] True,
       PairsLine ''repeat'' 1 False, SeqLine [48, 24] True], None)"
proof -
  have len: "36 + 14 \<le> length (sample_file l 105)" by (simp add: sample_header)
  have g: "getitem (sample_file l 105) (nat 16) = Inr l" by (simp add: getitem_def sample_file_def)
  have n: "drop (nat 16 + 1) (sample_file l 105) = [0x4F, 0x4B, 0x01, 0x01, 0x01, 0x01, 0x01,
      0x01, 0x01, 0x01, 0x01, 0x01, 0x01, 0x01, 0x01,
      0x43, 0x43, 0x46, 0x00,
      0x00, 0x16, 0x00, 0x00, 0x00, 0x10, 0x00, 0x00, 0x00, 105, 0x00, 0x01, 0x00, 0x01,
      0x00, 0x60, 0x00, 0x18,
      0x00, 0x30, 0x00, 0x18]"
    by (simp add: sample_file_def)
  have d1: "dump_pairs [96, 24] ''once'' 105 plain = ([PairsLine ''once'' 1 False, SeqLine [96, 24] True], None)"
    by (simp add: dump_pairs_def plain_def)
  have d2: "dump_pairs [48, 24] ''repeat'' 105 plain = ([PairsLine ''repeat'' 1 False, SeqLine [48, 24] True], None)"
    by (simp add: dump_pairs_def plain_def)
  have r: "args_rescale plain = None" by (simp add: plain_def)
  have k: "uint (105 :: byte) = 105" by simp
  have sz: "(22 :: int) = 6 + 8 + (1 + 1) * (2 + 2)" by simp
  have "dump_button (sample_file l 105) (36 + 6) plain =
          dump_block (sample_file l 105) (36 + 6) plain 16 105 1 1"
    unfolding dump_button_header [OF len] sample_header k by simp
  also have "\<dots> = ([ButtonLine (take (unat l) (drop (nat 16 + 1) (sample_file l 105))),
       CarrierLine (5555976190094364 / 2 ^ 47) 105, HeaderLine 105 1 1,
       PairsLine ''once'' 1 False, SeqLine [96, 24] True,
       PairsLine ''repeat'' 1 False, SeqLine [48, 24] True], None)"
    unfolding dump_block_def Let_def
    apply (simp only: g sum.case r option.case to_khz_105)
    apply (simp add: unpack_seq_sample_once [simplified] unpack_seq_sample_repeat [simplified] d1 d2 then_out_def)
    done
  finally show ?thesis by (simp only: n) simp
qed

lemma scan_sample:
  "scan plain (sample_file l 105) 99 106 0 =
     \<lparr>calls = [(42, fst (dump_button (sample_file l 105) 42 plain))], raised = None, iters = 3\<rparr>"
proof -
  have 3: "scan plain (sample_file l 105) 99 106 (42 + 3) = \<lparr>calls = [], raised = None, iters = 1\<rparr>"
    by (rule scan_unfold_None) (rule bfind_sample_45)
  have h: "heuristic (sample_file l 105) 42 99 106 = Inr True"
    by (simp add: heuristic_sample_42)
  have 2: "scan plain (sample_file l 105) 99 106 (38 + 3) =
      later [(42, fst (dump_button (sample_file l 105) 42 plain))] (scan plain (sample_file l 105) 99 106 (42 + 3))"
    by (rule scan_unfold_next [OF bfind_sample_41 h]) (simp add: dump_button_sample)
  have 1: "scan plain (sample_file l 105) 99 106 0 = later [] (scan plain (sample_file l 105) 99 106 (38 + 3))"
    by (rule scan_unfold_skip [OF bfind_sample_0 heuristic_sample_38])
  show ?thesis unfolding 1 2 3 by (simp add: later_def)
qed

lemma sample_nonempty: "sample_file l k \<noteq> []"
  by (simp add: sample_file_def)

lemma sample_magic:
  "take 8 (drop 8 (sample_file l k)) = magic1" "take 4 (drop 32 (sample_file l k)) = magic2"
  by (simp_all add: sample_file_def magic1_def magic2_def)

lemma search_ccf_sample:
  "search_ccf plain (sample_file l 105) =
     \<lparr>calls = [(42, fst (dump_button (sample_file l 105) 42 plain))], raised = None, iters = 3\<rparr>"
proof -
  have c: "args_carrier plain = 40000" by (simp add: plain_def)
  show ?thesis
    unfolding search_ccf_def c band_40000 sum.case prod.case
    by (simp add: sample_magic sample_nonempty scan_sample)
qed

section \<open>The validator\<close>

lemma then_out_Cons:
  "then_out (x # xs, None) q = (x # xs @ fst q, snd q)"
  by (simp add: then_out_def)

lemma dump_block_name_out_of_range:
  "\<not> nat j < length b \<Longrightarrow> dump_block b i a j base once_k repeat_k = ([], Some IndexError)"
  by (simp add: dump_block_alt getitem_def)

lemma dump_block_prints_button:
  assumes "nat j < length b"
  shows "\<exists>rest r. dump_block b i a j base once_k repeat_k =
           (ButtonLine (take (unat (b ! nat j)) (drop (nat j + 1) b)) # rest, r)"
  using assms
  by (auto simp: dump_block_alt getitem_def then_out_Cons split: sum.splits option.splits)

lemma then_out_raises: "snd q \<noteq> None \<Longrightarrow> snd (then_out p q) \<noteq> None"
  by (auto simp: then_out_def split: option.splits)

lemma pulse_part_truncated:
  assumes "0 \<le> once_k" and "0 \<le> repeat_k"
    and "length b < i + 8 + 4 * (nat once_k + nat repeat_k)" and "i + 8 \<le> length b"
  shows "snd (pulse_part b i a base once_k repeat_k) \<noteq> None"
proof (cases "unpack_seq b (int i + 8) (nat once_k)")
  case (Inl e)
  then show ?thesis by (simp add: pulse_part_def)
next
  case (Inr xs)
  have o: "int i + 8 = int (i + 8)" by simp
  have once_fits: "i + 8 + 4 * nat once_k \<le> length b"
  proof (rule ccontr)
    assume "\<not> i + 8 + 4 * nat once_k \<le> length b"
    then have short: "length b < i + 8 + 4 * nat once_k" by simp
    have pos: "0 < nat once_k"
    proof (rule ccontr)
      assume "\<not> 0 < nat once_k"
      then have "nat once_k = 0" by simp
      with short have "length b < i + 8" by simp
      with assms(4) show False by simp
    qed
    have "unpack_seq b (int i + 8) (nat once_k) = Inl StructError"
      unfolding o by (rule unpack_seq_short [OF pos short])
    with Inr show False by simp
  qed
  have rpos: "0 < nat repeat_k"
  proof (rule ccontr)
    assume "\<not> 0 < nat repeat_k"
    then have "nat repeat_k = 0" by simp
    with assms(3) have "length b < i + 8 + 4 * nat once_k" by simp
    with once_fits show False by simp
  qed
  have o2: "int i + 8 + once_k * 4 = int (i + 8 + 4 * nat once_k)" using assms(1) by simp
  have short2: "length b < i + 8 + 4 * nat once_k + 4 * nat repeat_k" using assms(3) by simp
  have "unpack_seq b (int i + 8 + once_k * 4) (nat repeat_k) = Inl StructError"
    unfolding o2 by (rule unpack_seq_short [OF rpos short2])
  then show ?thesis by (simp add: pulse_part_def Inr then_out_raises)
qed

lemma dump_block_truncated:
  assumes "0 \<le> once_k" and "0 \<le> repeat_k"
    and "length b < i + 8 + 4 * (nat once_k + nat repeat_k)" and "i + 8 \<le> length b"
  shows "snd (dump_block b i a j base once_k repeat_k) \<noteq> None"
  using pulse_part_truncated [OF assms, of a base]
  by (auto simp: dump_block_alt then_out_Cons split: sum.splits option.splits)

lemma dump_button_header_short:
  assumes "i < 6 \<or> length b < i + 8"
  shows "dump_button b i a = ([], Some StructError)"
  using assms by (auto simp: dump_button_def unpack_from_def)


text \<open>
  C3 does not hold as stated for the characters of the name.  In this file the length
  byte of the name is 255 while only 41 bytes follow it: the name is cut at the end of
  the buffer, no exception is raised, and the block is reported.
\<close>

theorem name_past_end_is_not_fatal:
  "length (sample_file 255 105) < 16 + 1 + unat (sample_file 255 105 ! 16) \<and>
   raised (search_ccf plain (sample_file 255 105)) = None \<and>
   map fst (calls (search_ccf plain (sample_file 255 105))) = [42] \<and>
   hd (printed (search_ccf plain (sample_file 255 105))) =
     ButtonLine (drop 17 (sample_file 255 105))"
  by (simp add: search_ccf_sample printed_def dump_button_sample) (simp add: sample_file_def)

text \<open>
  C3, amended.  A header that does not fit into the buffer, a name offset at or beyond
  the end of the buffer, and a pulse sequence that runs past the end of the buffer each
  end the call with an exception; and an exception raised for a candidate ends the whole
  scan: the result holds this call as its last entry and no later candidate is looked at.
\<close>

theorem truncation_is_fatal:
  "(i < 6 \<or> length b < i + 8 \<longrightarrow> dump_button b i a = ([], Some StructError)) \<and>
   (\<forall>h. i = h + 6 \<and> h + 14 \<le> length b \<and>
        u16_at b h = 6 + 8 + (u16_at b (h + 10) + u16_at b (h + 12)) * 4 \<and>
        length b \<le> nat (u32_at b (h + 2)) \<longrightarrow>
        dump_button b i a = ([], Some IndexError)) \<and>
   (\<forall>h. i = h + 6 \<and> h + 14 \<le> length b \<and>
        u16_at b h = 6 + 8 + (u16_at b (h + 10) + u16_at b (h + 12)) * 4 \<and>
        length b < h + 14 + 4 * (nat (u16_at b (h + 10)) + nat (u16_at b (h + 12))) \<longrightarrow>
        snd (dump_button b i a) \<noteq> None) \<and>
   (\<forall>kl kh off e.
      bfind b pat off = Some i \<and> heuristic b i kl kh = Inr True \<and>
      snd (dump_button b i a) = Some e \<longrightarrow>
      scan a b kl kh off = \<lparr>calls = [(i, fst (dump_button b i a))], raised = Some e, iters = 1\<rparr>)"
proof -
  have 1: "dump_button b i a = ([], Some StructError)" if "i < 6 \<or> length b < i + 8"
    using that by (rule dump_button_header_short)
  have 2: "dump_button b i a = ([], Some IndexError)"
    if "i = h + 6" "h + 14 \<le> length b"
      "u16_at b h = 6 + 8 + (u16_at b (h + 10) + u16_at b (h + 12)) * 4"
      "length b \<le> nat (u32_at b (h + 2))" for h
  proof -
    have "\<not> nat (u32_at b (h + 2)) < length b" using that(4) by simp
    from dump_block_name_out_of_range [OF this] that(1,3) show ?thesis
      by (simp add: dump_button_header [OF that(2)])
  qed
  have 3: "snd (dump_button b i a) \<noteq> None"
    if "i = h + 6" "h + 14 \<le> length b"
      "u16_at b h = 6 + 8 + (u16_at b (h + 10) + u16_at b (h + 12)) * 4"
      "length b < h + 14 + 4 * (nat (u16_at b (h + 10)) + nat (u16_at b (h + 12)))" for h
  proof -
    have "0 \<le> u16_at b (h + 10)" "0 \<le> u16_at b (h + 12)"
      using u16_at_range by simp_all
    moreover have "length b < h + 6 + 8 + 4 * (nat (u16_at b (h + 10)) + nat (u16_at b (h + 12)))"
      using that(4) by simp
    moreover have "h + 6 + 8 \<le> length b" using that(2) by simp
    ultimately have "snd (dump_block b (h + 6) a (u32_at b (h + 2)) (u16_at b (h + 8))
                            (u16_at b (h + 10)) (u16_at b (h + 12))) \<noteq> None"
      by (rule dump_block_truncated)
    with that(1,3) show ?thesis by (simp add: dump_button_header [OF that(2)])
  qed
  have 4: "scan a b kl kh off = \<lparr>calls = [(i, fst (dump_button b i a))], raised = Some e, iters = 1\<rparr>"
    if "bfind b pat off = Some i" "heuristic b i kl kh = Inr True" "snd (dump_button b i a) = Some e"
    for kl kh off e
  proof -
    from that(3) have "dump_button b i a = (fst (dump_button b i a), Some e)"
      by (metis prod.collapse)
    from scan_unfold_fatal [OF that(1,2) this] show ?thesis .
  qed
  from 1 2 3 4 show ?thesis by blast
qed

theorem truncation_is_fatal_witness:
  "snd (dump_button (take 56 (sample_file 2 105)) 42 plain) \<noteq> None \<and>
   dump_button (take 40 (sample_file 2 105)) 38 plain = ([], Some StructError)"
proof -
  let ?b = "take 56 (sample_file 2 105)"
  have f: "u16_at ?b 36 = 22" "u16_at ?b (36 + 10) = 1" "u16_at ?b (36 + 12) = 1"
    by (simp_all add: sample_file_def u16_at_def)
  have "42 = 36 + 6 \<and> 36 + 14 \<le> length ?b \<and>
        u16_at ?b 36 = 6 + 8 + (u16_at ?b (36 + 10) + u16_at ?b (36 + 12)) * 4 \<and>
        length ?b < 36 + 14 + 4 * (nat (u16_at ?b (36 + 10)) + nat (u16_at ?b (36 + 12)))"
    unfolding f by (simp add: sample_header)
  with truncation_is_fatal [of 42 ?b plain] have 1: "snd (dump_button ?b 42 plain) \<noteq> None"
    by blast
  have "38 < 6 \<or> length (take 40 (sample_file 2 105)) < 38 + 8" by (simp add: sample_header)
  with truncation_is_fatal [of 38 "take 40 (sample_file 2 105)" plain]
  have 2: "dump_button (take 40 (sample_file 2 105)) 38 plain = ([], Some StructError)" by blast
  from 1 2 show ?thesis by simp
qed

section \<open>The fast filter and the output of pulse values\<close>

lemma heuristic_True_iff:
  "heuristic b i kl kh = Inr True \<longleftrightarrow>
     i + 6 < length b \<and> b ! (i + 4) = 0 \<and> b ! (i + 6) = 0 \<and>
     kl < uint (b ! (i + 3)) \<and> uint (b ! (i + 3)) < kh"
  by (auto simp: heuristic_def getitem_def split: if_splits)

lemma scan_hands_over_iff:
  assumes "bfind b pat off = Some i"
  shows "i \<in> fst ` set (calls (scan a b kl kh off)) \<longleftrightarrow> heuristic b i kl kh = Inr True"
proof (cases "heuristic b i kl kh")
  case (Inl e)
  with assms show ?thesis by (simp add: scan_unfold_raise)
next
  case (Inr ok)
  show ?thesis
  proof (cases ok)
    case False
    have "i \<notin> fst ` set (calls (scan a b kl kh (i + 3)))"
    proof
      assume "i \<in> fst ` set (calls (scan a b kl kh (i + 3)))"
      then obtain ls where "(i, ls) \<in> set (calls (scan a b kl kh (i + 3)))" by auto
      from scan_calls_bounds [OF this] show False by simp
    qed
    with assms Inr False show ?thesis by (simp add: scan_unfold_skip later_def)
  next
    case True
    obtain ls r where d: "dump_button b i a = (ls, r)" by (cases "dump_button b i a")
    show ?thesis
    proof (cases r)
      case None
      with assms Inr True d show ?thesis by (simp add: scan_unfold_next later_def)
    next
      case (Some e)
      with assms Inr True d show ?thesis by (simp add: scan_unfold_fatal)
    qed
  qed
qed

lemma search_ccf_sample_99:
  "search_ccf plain (sample_file 2 99) = \<lparr>calls = [], raised = None, iters = 3\<rparr>"
proof -
  have c: "args_carrier plain = 40000" by (simp add: plain_def)
  have 3: "scan plain (sample_file 2 99) 99 106 (42 + 3) = \<lparr>calls = [], raised = None, iters = 1\<rparr>"
    by (rule scan_unfold_None) (rule bfind_sample_45)
  have h: "heuristic (sample_file 2 99) 42 99 106 = Inr False"
    by (simp add: heuristic_sample_42)
  have 2: "scan plain (sample_file 2 99) 99 106 (38 + 3) = later [] (scan plain (sample_file 2 99) 99 106 (42 + 3))"
    by (rule scan_unfold_skip [OF bfind_sample_41 h])
  have 1: "scan plain (sample_file 2 99) 99 106 0 = later [] (scan plain (sample_file 2 99) 99 106 (38 + 3))"
    by (rule scan_unfold_skip [OF bfind_sample_0 heuristic_sample_38])
  have s: "scan plain (sample_file 2 99) 99 106 0 = \<lparr>calls = [], raised = None, iters = 3\<rparr>"
    unfolding 1 2 3 by (simp add: later_def)
  show ?thesis
    unfolding search_ccf_def c band_40000 sum.case prod.case
    by (simp add: sample_magic sample_nonempty s)
qed

lemma spec_band_40000:
  "spec_k_target 40000 = 103"
  "\<lfloor>(97 / 100 :: rat) * of_int 103\<rfloor> = 99"
  "\<lceil>(103 / 100 :: rat) * of_int 103\<rceil> = 107"
proof -
  show "spec_k_target 40000 = 103"
    unfolding spec_k_target_def by (rule floor_unique) simp_all
  show "\<lfloor>(97 / 100 :: rat) * of_int 103\<rfloor> = 99" by (rule floor_unique) simp_all
  show "\<lceil>(103 / 100 :: rat) * of_int 103\<rceil> = 107" by (rule ceiling_unique) simp_all
qed

text \<open>
  C2 does not hold as stated.  For the default carrier the specification's band is
  \<open>[99, 107]\<close>, so a marker whose carrier byte is 99 passes its filter; the program,
  whose band is the open interval between 99 and 106, never calls the validator for it.
\<close>

theorem band_is_not_inclusive:
  "bfind (sample_file 2 99) pat 41 = Some 42 \<and>
   spec_fast_filter 40000 (sample_file 2 99) 42 \<and>
   band (args_carrier plain) = Inr (99, 106) \<and>
   calls (search_ccf plain (sample_file 2 99)) = []"
proof -
  have 1: "bfind (sample_file 2 99) pat 41 = Some 42"
    using bfind_sample_41 [of 2 99] by simp
  have 2: "spec_fast_filter 40000 (sample_file 2 99) 42"
    unfolding spec_fast_filter_def spec_band_40000 Let_def by (simp add: sample_file_def)
  have 3: "band (args_carrier plain) = Inr (99, 106)" by (simp add: plain_def band_40000)
  from 1 2 3 show ?thesis by (simp add: search_ccf_sample_99)
qed

text \<open>
  C2, amended.  For a marker offset \<open>i\<close> found by the scanner, \<open>dump_button\<close> is called
  exactly when the bytes at \<open>i + 4\<close> and \<open>i + 6\<close> exist and are 0 and the byte at \<open>i + 3\<close>
  lies strictly between \<open>k_low\<close> and \<open>k_high\<close>.  Both ends of the band are truncations:
  \<open>k_low = int(k * 0.97)\<close> and \<open>k_high = int(k * 1.03)\<close> with \<open>k = freq2k(carrier)\<close>, all in
  double arithmetic.  For the default carrier of 40 kHz the band is \<open>99 < byte < 106\<close>.
\<close>

theorem heuristic_band_is_strict:
  assumes "bfind b pat off = Some i"
  shows "(i \<in> fst ` set (calls (scan a b kl kh off)) \<longleftrightarrow>
            i + 6 < length b \<and> b ! (i + 4) = 0 \<and> b ! (i + 6) = 0 \<and>
            kl < uint (b ! (i + 3)) \<and> uint (b ! (i + 3)) < kh) \<and>
         (\<forall>c lo hi. band c = Inr (lo, hi) \<longrightarrow>
            (\<exists>k fk. freq2k c = Inr k \<and> py_float k = Inr fk \<and>
                    lo = py_int (fmul fk lit_0_97) \<and> hi = py_int (fmul fk lit_1_03))) \<and>
         band 40000 = Inr (99, 106)"
proof -
  have "\<exists>k fk. freq2k c = Inr k \<and> py_float k = Inr fk \<and>
                lo = py_int (fmul fk lit_0_97) \<and> hi = py_int (fmul fk lit_1_03)"
    if "band c = Inr (lo, hi)" for c lo hi
    using that by (auto simp: band_def split: sum.splits)
  then show ?thesis
    using scan_hands_over_iff [OF assms, of a kl kh] heuristic_True_iff [of b i kl kh] band_40000
    by blast
qed

theorem heuristic_band_is_strict_witness:
  "42 \<in> fst ` set (calls (scan plain (sample_file 2 105) 99 106 41)) \<and>
   42 \<notin> fst ` set (calls (scan plain (sample_file 2 99) 99 106 41))"
proof -
  have 1: "bfind (sample_file 2 105) pat 41 = Some 42" using bfind_sample_41 [of 2 105] by simp
  have 2: "bfind (sample_file 2 99) pat 41 = Some 42" using bfind_sample_41 [of 2 99] by simp
  have f: "sample_file 2 k ! (42 + 4) = 0" "sample_file 2 k ! (42 + 6) = 0"
    "sample_file 2 k ! (42 + 3) = k" "42 + 6 < length (sample_file 2 k)" for k
    by (simp_all add: sample_file_def)
  from heuristic_band_is_strict [OF 1, of plain 99 106]
  have a: "42 \<in> fst ` set (calls (scan plain (sample_file 2 105) 99 106 41))"
    unfolding f by (simp add: sample_header)
  from heuristic_band_is_strict [OF 2, of plain 99 106]
  have b: "42 \<notin> fst ` set (calls (scan plain (sample_file 2 99) 99 106 41))"
    unfolding f by (simp add: sample_header)
  from a b show ?thesis by simp
qed

lemma to_usec_samples: "to_usec 96 105 = Inr 2431" "to_usec 24 105 = Inr 607"
proof -
  have f: "py_float (96 * 105) = Inr 10080" "py_float (24 * 105) = Inr 2520"
    using py_float_exact [of 10080] py_float_exact [of 2520] by simp_all
  have "fmul 10080 lit_0_241246 = 5347496088233689 / 2 ^ 41"
    unfolding fmul_def lit_0_241246_val
    by (subst round64_cert [where e = 11 and m = 5347496088233689]) (simp_all add: power_int_minus)
  moreover have "py_int (5347496088233689 / 2 ^ 41) = 2431" by (rule py_int_cert) simp_all
  ultimately have 1: "py_int (fmul 10080 lit_0_241246) = 2431" by (simp only:)
  have "fmul 2520 lit_0_241246 = 5347496088233689 / 2 ^ 43"
    unfolding fmul_def lit_0_241246_val
    by (subst round64_cert [where e = 9 and m = 5347496088233689]) (simp_all add: power_int_minus)
  moreover have "py_int (5347496088233689 / 2 ^ 43) = 607" by (rule py_int_cert) simp_all
  ultimately have 2: "py_int (fmul 2520 lit_0_241246) = 607" by (simp only:)
  show "to_usec 96 105 = Inr 2431" by (simp only: to_usec_def f sum.case 1)
  show "to_usec 24 105 = Inr 607" by (simp only: to_usec_def f sum.case 2)
qed


text \<open>
  C9.  With \<open>--lirc\<close>, \<open>dump_pairs\<close> prints the values \<open>to_usec(x, base)\<close>, where \<open>base\<close> is
  the carrier factor read from the block's header, and the value of \<open>--rescale\<close> makes no
  difference to what it prints; the same holds for the once and repeat sequences that
  \<open>dump_button\<close> prints for a block.
\<close>

theorem lirc_takes_precedence:
  assumes "args_lirc a"
  shows "dump_pairs xs name base a =
           (case map_raise (\<lambda>x. to_usec x base) xs of
              Inl e \<Rightarrow> ([PairsLine name (length xs div 2) True], Some e)
            | Inr ys \<Rightarrow>
                (if ys = [] then [PairsLine name (length xs div 2) True]
                 else [PairsLine name (length xs div 2) True, SeqLine ys False], None)) \<and>
         (\<forall>r. dump_pairs xs name base (a\<lparr>args_rescale := r\<rparr>) = dump_pairs xs name base a) \<and>
         (\<forall>r b i once_k repeat_k.
            pulse_part b i (a\<lparr>args_rescale := r\<rparr>) base once_k repeat_k =
            pulse_part b i a base once_k repeat_k)"
proof -
  have 1: "dump_pairs ys nm base (a\<lparr>args_rescale := r\<rparr>) = dump_pairs ys nm base a" for ys nm r
    using assms by (simp add: dump_pairs_def Let_def split: sum.splits)
  have 2: "pulse_part b i (a\<lparr>args_rescale := r\<rparr>) base once_k repeat_k =
           pulse_part b i a base once_k repeat_k" for r b i once_k repeat_k
    by (simp add: pulse_part_def 1 cong: sum.case_cong)
  from 1 2 show ?thesis using assms by (simp add: dump_pairs_def Let_def split: sum.splits)
qed

theorem lirc_takes_precedence_witness:
  "dump_pairs [96, 24] ''once'' 105 \<lparr>args_lirc = True, args_rescale = Some 38000, args_carrier = 40000\<rparr> =
     ([PairsLine ''once'' 1 True, SeqLine [2431, 607] False], None) \<and>
   dump_pairs [96, 24] ''once'' 105 \<lparr>args_lirc = True, args_rescale = Some 38000, args_carrier = 40000\<rparr> =
   dump_pairs [96, 24] ''once'' 105 \<lparr>args_lirc = True, args_rescale = None, args_carrier = 40000\<rparr>"
proof -
  let ?a = "\<lparr>args_lirc = True, args_rescale = None, args_carrier = 40000\<rparr>"
  have l: "args_lirc ?a" by simp
  note t = lirc_takes_precedence [OF l, of "[96, 24]" "''once''" 105]
  from t have 1: "dump_pairs [96, 24] ''once'' 105 ?a =
     ([PairsLine ''once'' 1 True, SeqLine [2431, 607] False], None)"
    by (simp add: to_usec_samples)
  from t have 2: "dump_pairs [96, 24] ''once'' 105 (?a\<lparr>args_rescale := Some 38000\<rparr>) =
     dump_pairs [96, 24] ''once'' 105 ?a" by blast
  from 1 2 show ?thesis by simp
qed

section \<open>Order of the reported blocks and termination of the scan\<close>

lemma search_ccf_calls_sorted: "sorted_wrt (<) (map fst (calls (search_ccf a b)))"
  by (simp add: search_ccf_def scan_sorted split: sum.splits prod.splits)

lemma sorted_wrt_map_filter:
  "sorted_wrt (<) (map f xs) \<Longrightarrow> sorted_wrt (<) (map f (filter Q xs))"
  by (induction xs) auto

text \<open>
  C8.  The blocks are reported in strictly ascending order of their marker offsets: in
  the sequence of calls that printed something, taken in output order, every marker
  offset is greater than all earlier ones.  No sorting is involved; the scan itself only
  moves forward.
\<close>

theorem reported_blocks_ascending:
  "sorted_wrt (<) (map fst (filter (\<lambda>c. snd c \<noteq> []) (calls (search_ccf a b))))"
  by (rule sorted_wrt_map_filter) (rule search_ccf_calls_sorted)

theorem reported_blocks_ascending_witness:
  "map fst (filter (\<lambda>c. snd c \<noteq> []) (calls (search_ccf plain (sample_file 2 105)))) = [42] \<and>
   sorted_wrt (<) (map fst (filter (\<lambda>c. snd c \<noteq> []) (calls (search_ccf plain (sample_file 2 105)))))"
  using reported_blocks_ascending [of plain "sample_file 2 105"]
  by (simp add: search_ccf_sample dump_button_sample)

lemma search_ccf_iters: "iters (search_ccf a b) \<le> length b div 3 + 1"
proof -
  have "iters (scan a b kl kh 0) \<le> length b div 3 + 1" for kl kh
    using scan_iters [of a b kl kh 0] by simp
  then show ?thesis by (simp add: search_ccf_def split: sum.splits prod.splits)
qed

lemma scan_step:
  "iters (scan a b kl kh off) = 1 \<or>
   (\<exists>off' cs. off + 3 \<le> off' \<and> off' \<le> length b \<and>
      scan a b kl kh off = later cs (scan a b kl kh off'))"
proof (cases "bfind b pat off")
  case None
  then show ?thesis by (simp add: scan_unfold_None)
next
  case (Some i)
  from bfind_Some [OF Some] have i: "off \<le> i" "i + 3 \<le> length b" by (simp_all add: length_pat)
  show ?thesis
  proof (cases "heuristic b i kl kh")
    case (Inl e)
    with Some show ?thesis by (simp add: scan_unfold_raise)
  next
    case (Inr ok)
    show ?thesis
    proof (cases ok)
      case False
      with Some Inr have "scan a b kl kh off = later [] (scan a b kl kh (i + 3))"
        by (simp add: scan_unfold_skip)
      with i show ?thesis by (intro disjI2 exI [of _ "i + 3"] exI [of _ "[]"]) simp
    next
      case True
      obtain ls r where d: "dump_button b i a = (ls, r)" by (cases "dump_button b i a")
      show ?thesis
      proof (cases r)
        case None
        with Some Inr True d have "scan a b kl kh off = later [(i, ls)] (scan a b kl kh (i + 3))"
          by (simp add: scan_unfold_next)
        with i show ?thesis by (intro disjI2 exI [of _ "i + 3"] exI [of _ "[(i, ls)]"]) simp
      next
        case (Some e)
        with \<open>bfind b pat off = Some i\<close> Inr True d show ?thesis
          by (simp add: scan_unfold_fatal)
      qed
    qed
  qed
qed

text \<open>
  C10.  On a buffer that passes the magic check the scan loop terminates.  The loop body
  is entered at most \<open>length b div 3 + 1\<close> times, which is at most the length of the
  buffer; and from every search offset the loop either ends in this iteration or goes
  on from an offset at least 3 bytes further that is still inside the buffer.
\<close>

theorem scan_loop_terminates:
  assumes "take 8 (drop 8 b) = magic1" and "take 4 (drop 32 b) = magic2"
  shows "iters (search_ccf a b) \<le> length b div 3 + 1 \<and>
         iters (search_ccf a b) \<le> length b \<and>
         (\<forall>kl kh off. iters (scan a b kl kh off) = 1 \<or>
            (\<exists>off' cs. off + 3 \<le> off' \<and> off' \<le> length b \<and>
               scan a b kl kh off = later cs (scan a b kl kh off')))"
proof -
  have "length (take 4 (drop 32 b)) = 4" using assms(2) by (simp add: magic2_def)
  then have "36 \<le> length b" by simp
  then have "length b div 3 + 1 \<le> length b" by presburger
  with search_ccf_iters [of a b] scan_step [of a b] show ?thesis by auto
qed

theorem scan_loop_terminates_witness:
  "iters (search_ccf plain (sample_file 2 105)) = 3 \<and>
   iters (search_ccf plain (sample_file 2 105)) \<le> length (sample_file 2 105) div 3 + 1 \<and>
   iters (search_ccf plain (sample_file 2 105)) \<le> length (sample_file 2 105)"
  using scan_loop_terminates [where b = "sample_file 2 105" and a = plain, OF sample_magic]
  by (simp add: search_ccf_sample)

section \<open>Rescaling\<close>

lemma normal_range:
  fixes y :: rat
  assumes "1 / 2 ^ 60 \<le> y"
  shows "2 powi (- 1022) \<le> \<bar>y\<bar>"
proof -
  have "(2::rat) powi (- 1022) \<le> 2 powi (- 60)" by (intro power_int_increasing) simp_all
  also have "(2::rat) powi (- 60) = 1 / 2 ^ 60" by (simp add: power_int_minus field_simps)
  also have "\<dots> \<le> y" by (rule assms)
  also have "y \<le> \<bar>y\<bar>" by simp
  finally show ?thesis .
qed

lemma round64_close:
  fixes y :: rat
  assumes "1 / 2 ^ 60 \<le> y"
  shows "\<bar>round64 y - y\<bar> \<le> y / 2 ^ 53"
proof -
  have "0 < y" using assms by (rule less_le_trans [rotated]) simp
  with round64_err [OF normal_range [OF assms]] show ?thesis by simp
qed

lemma two_roundings:
  fixes R X q p u :: rat
  assumes R: "0 < R" and X: "0 \<le> X" and u: "0 \<le> u" "u \<le> 1"
    and e1: "\<bar>q - R\<bar> \<le> R * u"
    and e2: "\<bar>p - q * X\<bar> \<le> q * X * u"
  shows "\<bar>p - R * X\<bar> \<le> 3 * (R * X) * u"
proof -
  have "R * u \<le> R * 1" using R u by (intro mult_left_mono) simp_all
  moreover have "q - R \<le> \<bar>q - R\<bar>" by simp
  ultimately have q2: "q \<le> 2 * R" using e1 by linarith
  have "p - R * X = (p - q * X) + (q - R) * X" by (simp add: algebra_simps)
  then have "\<bar>p - R * X\<bar> \<le> \<bar>p - q * X\<bar> + \<bar>(q - R) * X\<bar>"
    by (simp only: abs_triangle_ineq)
  also have "\<bar>(q - R) * X\<bar> = \<bar>q - R\<bar> * X" using X by (simp add: abs_mult)
  also have "\<bar>p - q * X\<bar> + \<bar>q - R\<bar> * X \<le> q * X * u + (R * u) * X"
    using e1 e2 X by (intro add_mono mult_right_mono) simp_all
  also have "q * X * u \<le> (2 * R) * X * u"
    using q2 X u by (intro mult_right_mono) simp_all
  finally show ?thesis by (simp add: algebra_simps)
qed


lemma rescale_near_floor:
  assumes x0: "0 \<le> x" and a0: "0 < a" and b0: "0 < b"
    and ax: "a * x < 2 ^ 51" and a53: "a < 2 ^ 53" and b53: "b < 2 ^ 53"
  shows "\<exists>r. rescale x a b = Inr r \<and>
           (r = (a * x) div b \<or>
            (b dvd a * x \<and> 0 < (a * x) div b \<and> r = (a * x) div b - 1))"
proof -
  define A :: rat where "A = of_int a"
  define B :: rat where "B = of_int b"
  define X :: rat where "X = of_int x"
  define u :: rat where "u = 1 / 2 ^ 53"
  have u: "0 \<le> u" "u \<le> 1" by (simp_all add: u_def)
  have A1: "1 \<le> A" using a0 by (simp add: A_def)
  have B1: "1 \<le> B" using b0 by (simp add: B_def)
  have X0: "0 \<le> X" using x0 by (simp add: X_def)
  have Alt: "A < 2 ^ 53"
  proof -
    have "(of_int a :: rat) < of_int (2 ^ 53)" using a53 by (simp only: of_int_less_iff)
    then show ?thesis by (simp add: A_def)
  qed
  have Blt: "B < 2 ^ 53"
  proof -
    have "(of_int b :: rat) < of_int (2 ^ 53)" using b53 by (simp only: of_int_less_iff)
    then show ?thesis by (simp add: B_def)
  qed
  have AXlt: "A * X < 2 ^ 51"
  proof -
    have "(of_int (a * x) :: rat) < of_int (2 ^ 51)" using ax by (simp only: of_int_less_iff)
    then show ?thesis by (simp add: A_def X_def)
  qed
  define R where "R = A / B"
  have Rpos: "0 < R" using A1 B1 by (simp add: R_def)
  have RleA: "R \<le> A"
  proof -
    have "A / B \<le> A / 1" using A1 B1 by (intro divide_left_mono) simp_all
    then show ?thesis by (simp add: R_def)
  qed
  have Rlo: "1 / 2 ^ 53 \<le> R"
  proof -
    have "1 / 2 ^ 53 \<le> 1 / B" using B1 Blt by (intro divide_left_mono) simp_all
    also have "1 / B \<le> A / B" using A1 B1 by (intro divide_right_mono) simp_all
    finally show ?thesis by (simp add: R_def)
  qed
  have Rlo60: "1 / 2 ^ 60 \<le> R"
  proof -
    have "(1::rat) / 2 ^ 60 \<le> 1 / 2 ^ 53" by simp
    with Rlo show ?thesis by linarith
  qed
  define q where "q = round64 R"
  have e1: "\<bar>q - R\<bar> \<le> R * u" using round64_close [OF Rlo60] by (simp add: q_def u_def)
  have Ru: "R * u \<le> R * 1" using Rpos u by (intro mult_left_mono) simp_all
  have "q - R \<le> \<bar>q - R\<bar>" "R - q \<le> \<bar>q - R\<bar>" by simp_all
  with e1 Ru have qhi: "q \<le> 2 * R" and qlo0: "R - R * u \<le> q" by linarith+
  have "R * u \<le> R * (1 / 2)" using Rpos by (intro mult_left_mono) (simp_all add: u_def)
  with qlo0 have qlo: "R / 2 \<le> q" by simp
  have qpos: "0 < q" using qlo Rpos by simp
  have qsmall: "\<not> 2 ^ 1024 \<le> \<bar>q\<bar>"
  proof -
    have "q < 2 * 2 ^ 53" using qhi RleA Alt by simp
    also have "(2::rat) * 2 ^ 53 = 2 ^ 54" by simp
    also have "(2::rat) ^ 54 \<le> 2 ^ 1024" by (intro power_increasing) simp_all
    finally show ?thesis using qpos by simp
  qed
  have td: "int_truediv a b = Inr q"
    using b0 qsmall by (simp add: int_truediv_def Let_def q_def R_def A_def B_def)
  have xle: "x \<le> a * x" using x0 a0 by (simp add: mult_le_cancel_right1)
  have "\<bar>x\<bar> < 2 ^ 53"
  proof -
    have "x < 2 ^ 51" using xle ax by simp
    also have "(2::int) ^ 51 \<le> 2 ^ 53" by simp
    finally show ?thesis using x0 by simp
  qed
  then have fx: "py_float x = Inr X" by (simp add: py_float_exact X_def)
  define p where "p = round64 (q * X)"
  have resc: "rescale x a b = (if 2 ^ 1024 \<le> \<bar>p\<bar> then Inl OverflowError else Inr (py_int p))"
    by (simp add: rescale_def td fx fmul_def p_def Let_def)
  show ?thesis
  proof (cases "x = 0")
    case True
    then have "p = 0" by (simp add: p_def X_def round64_def)
    then have "rescale x a b = Inr 0" by (simp add: resc py_int_def)
    with True show ?thesis by simp
  next
    case False
    with x0 have x1: "1 \<le> x" by simp
    then have X1: "1 \<le> X" by (simp add: X_def)
    have lo2: "1 / 2 ^ 60 \<le> q * X"
    proof -
      have "(1::rat) / 2 ^ 60 \<le> 1 / 2 ^ 53 / 2" by simp
      also have "\<dots> \<le> R / 2" using Rlo by (intro divide_right_mono) simp_all
      also have "\<dots> \<le> q" by (rule qlo)
      also have "q = q * 1" by simp
      also have "q * 1 \<le> q * X" using qpos X1 by (intro mult_left_mono) simp_all
      finally show ?thesis .
    qed
    have e2: "\<bar>p - q * X\<bar> \<le> q * X * u"
      using round64_close [OF lo2] by (simp add: p_def u_def)
    have err: "\<bar>p - R * X\<bar> \<le> 3 * (R * X) * u"
      using Rpos X0 u e1 e2 by (rule two_roundings)
    define N :: rat where "N = of_int (a * x)"
    have N: "N = A * X" by (simp add: N_def A_def X_def)
    have RX: "R * X = N / B" by (simp add: R_def N)
    have Bpos: "0 < B" using B1 by simp
    have "3 * N * u < 1"
    proof -
      have "3 * N * u < 3 * 2 ^ 51 * u" using AXlt N by (simp add: u_def)
      also have "\<dots> \<le> 1" by (simp add: u_def)
      finally show ?thesis .
    qed
    then have "3 * N * u / B < 1 / B" using Bpos by (simp add: divide_strict_right_mono)
    moreover have "3 * (R * X) * u = 3 * N * u / B" by (simp add: RX)
    ultimately have "\<bar>p - N / B\<bar> < 1 / B" using err by (simp add: RX)
    then have "N / B - 1 / B < p" "p < N / B + 1 / B" by linarith+
    then have near: "N - 1 < p * B" "p * B < N + 1"
      using Bpos by (simp_all add: field_simps)
    define n where "n = (a * x) div b"
    define m where "m = (a * x) mod b"
    have "a * x = n * b + m" by (simp add: n_def m_def)
    then have "(of_int (a * x) :: rat) = of_int (n * b + m)" by simp
    then have dm: "N = of_int n * B + of_int m" by (simp add: N_def B_def)
    have m0: "0 \<le> m" and mb: "m < b" using b0 by (simp_all add: m_def)
    have n0: "0 \<le> n" using x0 a0 b0 by (simp add: n_def pos_imp_zdiv_nonneg_iff)
    have nle: "n \<le> a * x"
    proof -
      have "n * 1 \<le> n * b" using n0 b0 by (intro mult_left_mono) simp_all
      also have "\<dots> \<le> n * b + m" using m0 by simp
      finally show ?thesis using \<open>a * x = n * b + m\<close> by simp
    qed
    have hi: "p < of_int (n + 1)"
    proof -
      have "m + 1 \<le> b" using mb by simp
      then have "(of_int (m + 1) :: rat) \<le> of_int b" by (simp only: of_int_le_iff)
      then have "of_int m + 1 \<le> B" by (simp add: B_def)
      then have "p * B < (of_int n + 1) * B" using near(2) dm by (simp add: algebra_simps)
      then have "p < of_int n + 1" using Bpos by (simp only: mult_less_cancel_right_pos)
      then show ?thesis by simp
    qed
    have small: "\<not> 2 ^ 1024 \<le> \<bar>p\<bar>" if "0 \<le> p"
    proof -
      have "n + 1 \<le> 2 ^ 51" using nle ax by simp
      then have "(of_int (n + 1) :: rat) \<le> of_int (2 ^ 51)" by (simp only: of_int_le_iff)
      then have "p < 2 ^ 51" using hi by simp
      also have "(2::rat) ^ 51 \<le> 2 ^ 1024" by (intro power_increasing) simp_all
      finally show ?thesis using that by simp
    qed
    show ?thesis
    proof (cases "m = 0")
      case True
      then have dvd: "b dvd a * x" by (simp add: m_def dvd_eq_mod_eq_0)
      have "1 \<le> a * x" using a0 x1 by (simp add: mult_pos_pos int_one_le_iff_zero_less)
      with True \<open>a * x = n * b + m\<close> have "0 < n * b" by simp
      with b0 have n1: "1 \<le> n" by (simp add: zero_less_mult_iff)
      have lo: "of_int (n - 1) < p"
      proof -
        have "(of_int n - 1) * B = of_int n * B - B" by (simp add: algebra_simps)
        also have "\<dots> \<le> of_int n * B - 1" using B1 by simp
        also have "\<dots> < p * B" using near(1) dm True by simp
        finally have "of_int n - 1 < p" using Bpos by (simp only: mult_less_cancel_right_pos)
        then show ?thesis by simp
      qed
      have "(0::rat) \<le> of_int (n - 1)" using n1 by simp
      with lo have p0: "0 \<le> p" by simp
      have "n - 1 \<le> \<lfloor>p\<rfloor>" using lo by (simp add: le_floor_iff)
      moreover have "\<lfloor>p\<rfloor> < n + 1" using hi by (simp only: floor_less_iff)
      ultimately have "\<lfloor>p\<rfloor> = n \<or> \<lfloor>p\<rfloor> = n - 1" by linarith
      moreover have "rescale x a b = Inr \<lfloor>p\<rfloor>"
        using p0 small [OF p0] by (simp add: resc py_int_def)
      ultimately show ?thesis using dvd n1 by (auto simp: n_def)
    next
      case False
      with m0 have m1: "1 \<le> m" by simp
      have lo: "of_int n < p"
      proof -
        have "(of_int 1 :: rat) \<le> of_int m" using m1 by (simp only: of_int_le_iff)
        then have "of_int n * B \<le> N - 1" using dm by simp
        also have "\<dots> < p * B" by (rule near(1))
        finally show ?thesis using Bpos by (simp only: mult_less_cancel_right_pos)
      qed
      have "(0::rat) \<le> of_int n" using n0 by simp
      with lo have p0: "0 \<le> p" by simp
      have "\<lfloor>p\<rfloor> = n" using lo hi by (intro floor_unique) simp_all
      moreover have "rescale x a b = Inr \<lfloor>p\<rfloor>"
        using p0 small [OF p0] by (simp add: resc py_int_def)
      ultimately show ?thesis by (simp add: n_def)
    qed
  qed
qed


lemma py_int_of_int: "py_int (of_int k) = k"
  by (simp add: py_int_def)

lemma rescale_exact:
  assumes x0: "0 \<le> x" and a0: "0 < a" and b0: "0 < b" and dvd: "b dvd a"
    and ax: "a * x < 2 ^ 51" and a53: "a < 2 ^ 53"
  shows "rescale x a b = Inr ((a * x) div b)"
proof -
  from dvd obtain c where c: "a = b * c" by (auto simp: dvd_def)
  with a0 b0 have c0: "0 < c" by (simp add: zero_less_mult_iff)
  have "c * 1 \<le> c * b" using c0 b0 by (intro mult_left_mono) simp_all
  then have cle: "c \<le> a" by (simp add: c mult.commute)
  have cs: "\<bar>c\<bar> < 2 ^ 53" using c0 cle a53 by simp
  have "(of_int a :: rat) / of_int b = of_int c" using b0 by (simp add: c)
  then have q: "round64 (of_int a / of_int b) = of_int c"
    using round64_exact_int [OF cs] by simp
  have "\<bar>of_int c :: rat\<bar> < 2 ^ 53"
  proof -
    have "(of_int \<bar>c\<bar> :: rat) < of_int (2 ^ 53)" using cs by (simp only: of_int_less_iff)
    then show ?thesis by simp
  qed
  also have "(2::rat) ^ 53 \<le> 2 ^ 1024" by (intro power_increasing) simp_all
  finally have qs: "\<not> 2 ^ 1024 \<le> \<bar>of_int c :: rat\<bar>" by simp
  have td: "int_truediv a b = Inr (of_int c)"
    using b0 qs by (simp add: int_truediv_def Let_def q)
  have xle: "x \<le> a * x" using x0 a0 by (simp add: mult_le_cancel_right1)
  have xs: "\<bar>x\<bar> < 2 ^ 53"
  proof -
    have "x < 2 ^ 51" using xle ax by simp
    also have "(2::int) ^ 51 \<le> 2 ^ 53" by simp
    finally show ?thesis using x0 by simp
  qed
  have fx: "py_float x = Inr (of_int x)" using xs by (rule py_float_exact)
  have cx0: "0 \<le> c * x" using c0 x0 by simp
  have "c * x \<le> a * x" using cle x0 by (intro mult_right_mono) simp_all
  with ax have cxlt: "c * x < 2 ^ 51" by simp
  then have "c * x < 2 ^ 53"
  proof -
    have "(2::int) ^ 51 \<le> 2 ^ 53" by simp
    with cxlt show ?thesis by linarith
  qed
  with cx0 have cxs: "\<bar>c * x\<bar> < 2 ^ 53" by simp
  have p: "fmul (of_int c) (of_int x) = of_int (c * x)"
    using round64_exact_int [OF cxs] by (simp add: fmul_def)
  have "\<bar>of_int (c * x) :: rat\<bar> < 2 ^ 53"
  proof -
    have "(of_int \<bar>c * x\<bar> :: rat) < of_int (2 ^ 53)" using cxs by (simp only: of_int_less_iff)
    then show ?thesis by simp
  qed
  also have "(2::rat) ^ 53 \<le> 2 ^ 1024" by (intro power_increasing) simp_all
  finally have ps: "\<not> 2 ^ 1024 \<le> \<bar>of_int (c * x) :: rat\<bar>" by simp
  have "rescale x a b = Inr (c * x)"
    unfolding rescale_def td fx sum.case p Let_def using ps by (simp only: if_False py_int_of_int)
  moreover have "(a * x) div b = c * x" using b0 by (simp add: c mult.assoc)
  ultimately show ?thesis by simp
qed

lemma rescale_49: "rescale 49 1 49 = Inr 0"
proof -
  have q: "int_truediv 1 49 = Inr (5882252574524729 / 2 ^ 58)"
  proof -
    have "round64 (of_int 1 / of_int 49) = 5882252574524729 / 2 ^ 58"
      by (subst round64_cert [where e = "- 6" and m = 5882252574524729])
         (simp_all add: power_int_minus)
    then show ?thesis by (simp add: int_truediv_def Let_def)
  qed
  have f: "py_float 49 = Inr 49" using py_float_exact [of 49] by simp
  have p: "fmul (5882252574524729 / 2 ^ 58) 49 = 9007199254740991 / 2 ^ 53"
    unfolding fmul_def
    by (subst round64_cert [where e = "- 1" and m = 9007199254740991])
       (simp_all add: power_int_minus)
  have i: "py_int (9007199254740991 / 2 ^ 53) = 0" by (rule py_int_cert) simp_all
  show ?thesis by (simp only: rescale_def q f sum.case p Let_def i) simp
qed


lemma exact_floor:
  "0 < b \<Longrightarrow> \<lfloor>(of_int a / of_int b) * of_int x :: rat\<rfloor> = (a * x) div b"
proof -
  have "(of_int a / of_int b) * of_int x = (of_int (a * x) :: rat) / of_int b" by simp
  then show ?thesis by (simp only: floor_divide_of_int_eq)
qed

text \<open>
  C6 does not hold as stated: the quotient and the product are rounded to doubles before
  the truncation.  \<open>1/49\<close> rounds down, its product with 49 is the double just below 1,
  and \<open>rescale(49, 1, 49)\<close> is 0, while the exact product is 1.
\<close>

theorem rescale_is_not_exact_floor:
  "rescale 49 1 49 = Inr 0 \<and> \<lfloor>(of_int 1 / of_int 49) * of_int 49 :: rat\<rfloor> = 1"
  by (simp add: rescale_49)

text \<open>
  C6, amended.  For a non-negative width and positive factors in the range of the
  format (\<open>old_k * x < 2^51\<close>, both factors below \<open>2^53\<close>), \<open>rescale\<close> returns the
  double-precision value of \<open>(old_k / new_k) * x\<close> truncated toward zero.  This is the
  floor of the exact rational product, or one less; it is the exact floor whenever the
  exact product is not an integer, and whenever \<open>old_k\<close> is a multiple of \<open>new_k\<close>.
\<close>

theorem rescale_truncates:
  assumes "0 \<le> x" and "0 < old_k" and "0 < new_k"
    and "old_k * x < 2 ^ 51" and "old_k < 2 ^ 53" and "new_k < 2 ^ 53"
  shows "\<exists>r. rescale x old_k new_k = Inr r \<and>
           (r = \<lfloor>(of_int old_k / of_int new_k) * of_int x :: rat\<rfloor> \<or>
            r = \<lfloor>(of_int old_k / of_int new_k) * of_int x :: rat\<rfloor> - 1) \<and>
           (\<not> new_k dvd old_k * x \<or> new_k dvd old_k \<longrightarrow>
              r = \<lfloor>(of_int old_k / of_int new_k) * of_int x :: rat\<rfloor>)"
proof -
  note fl = exact_floor [OF assms(3), of old_k x]
  from rescale_near_floor [OF assms] obtain r where r: "rescale x old_k new_k = Inr r"
    and d: "r = (old_k * x) div new_k \<or>
            (new_k dvd old_k * x \<and> 0 < (old_k * x) div new_k \<and> r = (old_k * x) div new_k - 1)"
    by blast
  have ex: "r = (old_k * x) div new_k" if "new_k dvd old_k"
    using rescale_exact [OF assms(1-3) that assms(4,5)] r by simp
  from r d ex show ?thesis unfolding fl by blast
qed

theorem rescale_truncates_witness:
  "rescale 96 105 103 = Inr 97 \<and> rescale 96 105 105 = Inr 96"
proof -
  have h: "(0::int) \<le> 96" "(0::int) < 105" "(0::int) < 103" "(105::int) * 96 < 2 ^ 51"
    "(105::int) < 2 ^ 53" "(103::int) < 2 ^ 53" by simp_all
  have f1: "\<lfloor>(of_int 105 / of_int 103) * of_int 96 :: rat\<rfloor> = 97"
    by (rule floor_unique) simp_all
  have f2: "\<lfloor>(of_int 105 / of_int 105) * of_int 96 :: rat\<rfloor> = 96" by simp
  have n: "\<not> (103::int) dvd 105 * 96" by simp
  from rescale_truncates [OF h(1,2,3,4,5,6)] n have 1: "rescale 96 105 103 = Inr 97"
    unfolding f1 by auto
  from rescale_truncates [OF h(1,2,2) h(4,5,5)] have 2: "rescale 96 105 105 = Inr 96"
    unfolding f2 by auto
  from 1 2 show ?thesis by simp
qed

text \<open>
  C7.  Rescaling from \<open>a\<close> to \<open>b\<close> and back recovers \<open>x\<close> up to what the two truncations
  lose: the result \<open>z\<close> is never above \<open>x\<close>, and \<open>x - z < 1 + b/a\<close> (one unit lost by the
  second truncation, and one unit of the \<open>b\<close> scale, which is \<open>b/a\<close> units of the \<open>a\<close>
  scale, lost by the first).
\<close>

theorem rescale_round_trip:
  assumes "0 \<le> x" and "0 < a" and "0 < b"
    and "a * x < 2 ^ 51" and "a < 2 ^ 53" and "b < 2 ^ 53"
  shows "\<exists>y z. rescale x a b = Inr y \<and> rescale y b a = Inr z \<and>
               z \<le> x \<and> a * (x - z) < a + b"
proof -
  define n1 where "n1 = (a * x) div b"
  from rescale_near_floor [OF assms] obtain y where y: "rescale x a b = Inr y"
    and dy: "y = n1 \<or> (b dvd a * x \<and> 0 < n1 \<and> y = n1 - 1)"
    unfolding n1_def by blast
  have n10: "0 \<le> n1" using assms(1-3) by (simp add: n1_def pos_imp_zdiv_nonneg_iff)
  have y0: "0 \<le> y" using dy n10 by auto
  have yle: "y \<le> n1" using dy by auto
  have bn1: "b * n1 \<le> a * x"
  proof -
    have "b * n1 + (a * x) mod b = a * x" by (simp add: n1_def)
    moreover have "0 \<le> (a * x) mod b" using assms(3) by simp
    ultimately show ?thesis by linarith
  qed
  have "b * y \<le> b * n1" using yle assms(3) by (intro mult_left_mono) simp_all
  with bn1 have by_le: "b * y \<le> a * x" by simp
  with assms(4) have by51: "b * y < 2 ^ 51" by simp
  define n2 where "n2 = (b * y) div a"
  from rescale_near_floor [OF y0 assms(3) assms(2) by51 assms(6) assms(5)]
  obtain z where z: "rescale y b a = Inr z"
    and dz: "z = n2 \<or> (a dvd b * y \<and> 0 < n2 \<and> z = n2 - 1)"
    unfolding n2_def by blast
  have an2: "a * n2 \<le> b * y" and an2': "b * y < a * n2 + a"
  proof -
    have e: "a * n2 + (b * y) mod a = b * y" by (simp add: n2_def)
    have "0 \<le> (b * y) mod a" "(b * y) mod a < a" using assms(2) by simp_all
    with e show "a * n2 \<le> b * y" "b * y < a * n2 + a" by linarith+
  qed
  have zle: "z \<le> n2" using dz by auto
  have "a * n2 \<le> a * x" using an2 by_le by simp
  then have "n2 \<le> x" using assms(2) by simp
  with zle have zx: "z \<le> x" by simp
  have bn1': "a * x < b * n1 + b"
  proof -
    have "b * n1 + (a * x) mod b = a * x" by (simp add: n1_def)
    moreover have "(a * x) mod b < b" using assms(3) by simp
    ultimately show ?thesis by linarith
  qed
  have low: "a * x - b - a < a * z"
  proof (cases "y = n1")
    case True
    then have 1: "a * x - b < b * y" using bn1' by simp
    from dz show ?thesis
    proof
      assume "z = n2"
      with an2' 1 show ?thesis by simp
    next
      assume "a dvd b * y \<and> 0 < n2 \<and> z = n2 - 1"
      then have d: "a dvd b * y" and zz: "z = n2 - 1" by simp_all
      from d have "a * n2 = b * y" by (simp add: n2_def)
      then have "a * z = b * y - a" by (simp add: zz algebra_simps)
      with 1 show ?thesis by simp
    qed
  next
    case False
    with dy have d1: "b dvd a * x" and yy: "y = n1 - 1" by simp_all
    from d1 have "b * n1 = a * x" by (simp add: n1_def)
    then have byx: "b * y = a * x - b" by (simp add: yy algebra_simps)
    have "z = n2"
    proof (cases "a dvd b")
      case True
      from rescale_exact [OF y0 assms(3) assms(2) True by51 assms(6)] z show ?thesis
        by (simp add: n2_def)
    next
      case nd: False
      have "\<not> a dvd b * y"
      proof
        assume "a dvd b * y"
        then have "a dvd a * x - b" by (simp add: byx)
        moreover have "a dvd a * x" by simp
        ultimately have "a dvd a * x - (a * x - b)" by (rule dvd_diff [rotated])
        then have "a dvd b" by simp
        with nd show False by simp
      qed
      with dz show ?thesis by simp
    qed
    with an2' byx show ?thesis by simp
  qed
  have "a * (x - z) = a * x - a * z" by (simp add: algebra_simps)
  with low have "a * (x - z) < a + b" by simp
  with y z zx show ?thesis by blast
qed

theorem rescale_round_trip_witness:
  "\<exists>y z. rescale 96 105 103 = Inr y \<and> rescale y 103 105 = Inr z \<and>
         z \<le> 96 \<and> 105 * (96 - z) < 105 + 103"
proof -
  have h: "(0::int) \<le> 96" "(0::int) < 105" "(0::int) < 103" "(105::int) * 96 < 2 ^ 51"
    "(105::int) < 2 ^ 53" "(103::int) < 2 ^ 53" by simp_all
  from rescale_round_trip [OF h] show ?thesis .
qed

section \<open>Accepted blocks and the signature check\<close>

lemma band_0: "band 0 = Inl ZeroDivisionError"
  by (simp add: band_def freq2k_def py_float_def round64_def fmul_def fdiv_def)

lemma unpack_seq_pulses:
  assumes "p + 4 * n \<le> length b"
  shows "unpack_seq b (int p) n = Inr (pulses_at b p n)"
  using unpack_seq_loop_in_range [OF assms, of p "[]"] by (simp add: unpack_seq_def pulses_at_def)

lemma length_pulses_at: "length (pulses_at b p n) = 2 * n"
  by (simp add: pulses_at_def length_pairs)

lemma pulses_at_Nil: "pulses_at b p n = [] \<longleftrightarrow> n = 0"
  using length_pulses_at [of b p n] by (cases n) auto

lemma pulse_part_in_range:
  assumes "0 \<le> once_k" and "0 \<le> repeat_k"
    and "i + 8 + 4 * (nat once_k + nat repeat_k) \<le> length b"
  shows "pulse_part b i a base once_k repeat_k =
           then_out (dump_pairs (pulses_at b (i + 8) (nat once_k)) ''once'' base a)
                    (dump_pairs (pulses_at b (i + 8 + 4 * nat once_k) (nat repeat_k)) ''repeat'' base a)"
proof -
  have o1: "int i + 8 = int (i + 8)" by simp
  have o2: "int (i + 8) + once_k * 4 = int (i + 8 + 4 * nat once_k)" using assms(1) by simp
  have f1: "i + 8 + 4 * nat once_k \<le> length b" using assms(3) by simp
  have f2: "i + 8 + 4 * nat once_k + 4 * nat repeat_k \<le> length b" using assms(3) by simp
  show ?thesis
    unfolding pulse_part_def o1 o2 unpack_seq_pulses [OF f1] unpack_seq_pulses [OF f2] sum.case
    by (rule refl)
qed

lemma lit_0_241246_ge: "1 / 8 \<le> lit_0_241246"
  by (simp add: lit_0_241246_val)

lemma to_khz_ok:
  assumes "0 < k" and "k < 2 ^ 53"
  shows "\<exists>v. to_khz k = Inr v"
proof -
  have f: "py_float k = Inr (of_int k)" using assms by (intro py_float_exact) simp
  define y :: rat where "y = of_int k * lit_0_241246"
  have k1: "(1::rat) \<le> of_int k" using assms(1) by simp
  have "1 * (1 / 8) \<le> of_int k * lit_0_241246"
    using k1 lit_0_241246_ge by (intro mult_mono) simp_all
  then have y8: "1 / 8 \<le> y" by (simp add: y_def)
  have "(1::rat) / 2 ^ 60 \<le> 1 / 8" by simp
  with y8 have ylo: "1 / 2 ^ 60 \<le> y" by linarith
  have ypos: "0 < y" using y8 by simp
  have "\<bar>round64 y - y\<bar> \<le> y / 2 ^ 53" by (rule round64_close [OF ylo])
  moreover have "y - round64 y \<le> \<bar>round64 y - y\<bar>" by simp
  moreover have "y / 2 ^ 53 \<le> y / 2" using ypos by (intro divide_left_mono) simp_all
  ultimately have "y / 2 \<le> round64 y" by simp
  with ypos have nz: "fmul (of_int k) lit_0_241246 \<noteq> 0" by (simp add: fmul_def y_def)
  show ?thesis by (simp add: to_khz_def f fdiv_def nz)
qed

lemma dump_pairs_plain:
  assumes "\<not> args_lirc a" and "args_rescale a = None"
  shows "dump_pairs xs name base a =
           (if xs = [] then [PairsLine name (length xs div 2) False]
            else [PairsLine name (length xs div 2) False, SeqLine xs True], None)"
  using assms by (simp add: dump_pairs_def Let_def)

lemma then_out_None: "then_out (xs, None) q = (xs @ fst q, snd q)"
  by (simp add: then_out_def)


lemma stray_name_facts:
  "length stray_name_file = 58"
  "u16_at stray_name_file 36 = 22"
  "u32_at stray_name_file (36 + 2) = 64"
  "u16_at stray_name_file (36 + 10) = 1"
  "u16_at stray_name_file (36 + 12) = 1"
  by (simp_all add: stray_name_file_def sample_file_def u16_at_def u32_at_def)

lemma dump_button_stray_name: "dump_button stray_name_file 42 plain = ([], Some IndexError)"
proof -
  have len: "36 + 14 \<le> length stray_name_file" by (simp add: stray_name_facts)
  have "\<not> nat 64 < length stray_name_file" by (simp add: stray_name_facts)
  from dump_block_name_out_of_range [OF this]
  have "dump_button stray_name_file (36 + 6) plain = ([], Some IndexError)"
    unfolding dump_button_header [OF len] stray_name_facts by simp
  then show ?thesis by simp
qed

lemma search_ccf_stray_name:
  "search_ccf plain stray_name_file = \<lparr>calls = [(42, [])], raised = Some IndexError, iters = 2\<rparr>"
proof -
  have c: "args_carrier plain = 40000" by (simp add: plain_def)
  have b0: "bfind stray_name_file pat 0 = Some 38"
    by (simp add: bfind.simps stray_name_file_def sample_file_def pat_def)
  have b1: "bfind stray_name_file pat (38 + 3) = Some 42"
    by (simp add: bfind.simps stray_name_file_def sample_file_def pat_def)
  have h0: "heuristic stray_name_file 38 99 106 = Inr False"
    by (simp add: heuristic_def getitem_def stray_name_file_def sample_file_def)
  have h1: "heuristic stray_name_file 42 99 106 = Inr True"
    by (simp add: heuristic_def getitem_def stray_name_file_def sample_file_def)
  have 2: "scan plain stray_name_file 99 106 (38 + 3) =
             \<lparr>calls = [(42, [])], raised = Some IndexError, iters = 1\<rparr>"
    by (rule scan_unfold_fatal [OF b1 h1 dump_button_stray_name])
  have 1: "scan plain stray_name_file 99 106 0 = later [] (scan plain stray_name_file 99 106 (38 + 3))"
    by (rule scan_unfold_skip [OF b0 h0])
  have m: "take 8 (drop 8 stray_name_file) = magic1" "take 4 (drop 32 stray_name_file) = magic2"
    "stray_name_file \<noteq> []"
    by (simp_all add: stray_name_file_def sample_file_def magic1_def magic2_def)
  have s: "scan plain stray_name_file 99 106 0 =
             \<lparr>calls = [(42, [])], raised = Some IndexError, iters = 2\<rparr>"
    unfolding 1 2 by (simp add: later_def)
  show ?thesis
    unfolding search_ccf_def c band_40000 sum.case prod.case
    by (simp add: m s)
qed

text \<open>
  C1 does not hold as stated.  In this file the size field of the candidate at marker 42
  matches \<open>6 + 8 + (once_count + repeat_count) * 4\<close>, but its name offset (64) lies beyond
  the end of the 58 bytes: no block is emitted, and the call ends with \<open>IndexError\<close>,
  which ends the run.
\<close>

theorem matching_size_without_block:
  "u16_at stray_name_file 36 =
     6 + 8 + (u16_at stray_name_file (36 + 10) + u16_at stray_name_file (36 + 12)) * 4 \<and>
   dump_button stray_name_file 42 plain = ([], Some IndexError) \<and>
   printed (search_ccf plain stray_name_file) = [] \<and>
   raised (search_ccf plain stray_name_file) = Some IndexError"
proof -
  have "u16_at stray_name_file 36 =
     6 + 8 + (u16_at stray_name_file (36 + 10) + u16_at stray_name_file (36 + 12)) * 4"
    unfolding stray_name_facts by simp
  moreover have "printed (search_ccf plain stray_name_file) = []"
    by (simp add: search_ccf_stray_name printed_def)
  moreover have "raised (search_ccf plain stray_name_file) = Some IndexError"
    by (simp add: search_ccf_stray_name)
  ultimately show ?thesis using dump_button_stray_name by (intro conjI)
qed

text \<open>
  C1, amended.  For a candidate whose 14-byte header at \<open>h = i - 6\<close> lies inside the
  buffer, the validator prints nothing and raises nothing exactly when the size field
  differs from \<open>6 + 8 + (once_count + repeat_count) * 4\<close>; such a candidate leaves no
  trace and the scan goes on behind its marker.  When the size matches and the name
  offset lies at or beyond the end of the buffer, nothing is printed and the call ends
  with \<open>IndexError\<close>.  When the size matches, the name offset lies inside the buffer and
  both pulse sequences lie inside the buffer, the block is emitted: the button line with
  the name, then (unless a carrier conversion raises) the carrier line, the header line,
  the once sequence and the repeat sequence, each sequence holding the pairs stored
  behind the header.  Without \<open>--lirc\<close> and \<open>--rescale\<close> and with a positive carrier
  factor nothing raises, and the output is exactly these lines with the stored values.
\<close>

theorem validator_accepts_iff_size_matches:
  assumes "h + 14 \<le> length b"
  shows
    "let size = u16_at b h; j = nat (u32_at b (h + 2)); base = u16_at b (h + 8);
         once_k = u16_at b (h + 10); repeat_k = u16_at b (h + 12);
         name = take (unat (b ! j)) (drop (j + 1) b);
         xs = pulses_at b (h + 14) (nat once_k);
         ys = pulses_at b (h + 14 + 4 * nat once_k) (nat repeat_k)
     in (dump_button b (h + 6) a = ([], None) \<longleftrightarrow> size \<noteq> 6 + 8 + (once_k + repeat_k) * 4) \<and>
        (\<forall>kl kh off.
           bfind b pat off = Some (h + 6) \<and> heuristic b (h + 6) kl kh = Inr True \<and>
           size \<noteq> 6 + 8 + (once_k + repeat_k) * 4 \<longrightarrow>
           scan a b kl kh off = later [(h + 6, [])] (scan a b kl kh (h + 6 + 3))) \<and>
        (size = 6 + 8 + (once_k + repeat_k) * 4 \<and> length b \<le> j \<longrightarrow>
           dump_button b (h + 6) a = ([], Some IndexError)) \<and>
        (size = 6 + 8 + (once_k + repeat_k) * 4 \<and> j < length b \<and>
         h + 14 + 4 * (nat once_k + nat repeat_k) \<le> length b \<longrightarrow>
           dump_button b (h + 6) a =
             (case (case args_rescale a of
                      None \<Rightarrow> Inr base
                    | Some hz \<Rightarrow> if hz = 0 then Inr base else freq2k hz) of
                Inl e \<Rightarrow> ([ButtonLine name], Some e)
              | Inr baseP \<Rightarrow>
                  (case to_khz baseP of
                     Inl e \<Rightarrow> ([ButtonLine name], Some e)
                   | Inr khz \<Rightarrow>
                       then_out
                         ([ButtonLine name, CarrierLine khz baseP,
                           HeaderLine baseP once_k repeat_k], None)
                         (then_out (dump_pairs xs ''once'' base a)
                                   (dump_pairs ys ''repeat'' base a))))) \<and>
        (size = 6 + 8 + (once_k + repeat_k) * 4 \<and> j < length b \<and>
         h + 14 + 4 * (nat once_k + nat repeat_k) \<le> length b \<and>
         \<not> args_lirc a \<and> args_rescale a = None \<and> 0 < base \<longrightarrow>
           (\<exists>khz. to_khz base = Inr khz \<and>
              dump_button b (h + 6) a =
                ([ButtonLine name, CarrierLine khz base, HeaderLine base once_k repeat_k,
                  PairsLine ''once'' (nat once_k) False] @
                 (if once_k = 0 then [] else [SeqLine xs True]) @
                 [PairsLine ''repeat'' (nat repeat_k) False] @
                 (if repeat_k = 0 then [] else [SeqLine ys True]), None)))"
proof -
  define size where "size = u16_at b h"
  define j where "j = nat (u32_at b (h + 2))"
  define base where "base = u16_at b (h + 8)"
  define once_k where "once_k = u16_at b (h + 10)"
  define repeat_k where "repeat_k = u16_at b (h + 12)"
  define name where "name = take (unat (b ! j)) (drop (j + 1) b)"
  define xs where "xs = pulses_at b (h + 14) (nat once_k)"
  define ys where "ys = pulses_at b (h + 14 + 4 * nat once_k) (nat repeat_k)"
  let ?ok = "size = 6 + 8 + (once_k + repeat_k) * 4"
  have o0: "0 \<le> once_k" "0 \<le> repeat_k" and blt: "base < 65536"
    using u16_at_range by (simp_all add: once_k_def repeat_k_def base_def)
  have d: "dump_button b (h + 6) a =
             (if ?ok then dump_block b (h + 6) a (u32_at b (h + 2)) base once_k repeat_k
              else ([], None))"
    using dump_button_header [OF assms, of a]
    by (simp add: size_def base_def once_k_def repeat_k_def)
  have nm: "dump_button b (h + 6) a = ([], Some IndexError)" if "?ok" "length b \<le> j"
  proof -
    have "\<not> nat (u32_at b (h + 2)) < length b" using that(2) by (simp add: j_def)
    from dump_block_name_out_of_range [OF this] that(1) show ?thesis by (simp add: d)
  qed
  have full: "dump_button b (h + 6) a =
             (case (case args_rescale a of
                      None \<Rightarrow> Inr base
                    | Some hz \<Rightarrow> if hz = 0 then Inr base else freq2k hz) of
                Inl e \<Rightarrow> ([ButtonLine name], Some e)
              | Inr baseP \<Rightarrow>
                  (case to_khz baseP of
                     Inl e \<Rightarrow> ([ButtonLine name], Some e)
                   | Inr khz \<Rightarrow>
                       then_out
                         ([ButtonLine name, CarrierLine khz baseP,
                           HeaderLine baseP once_k repeat_k], None)
                         (then_out (dump_pairs xs ''once'' base a)
                                   (dump_pairs ys ''repeat'' base a))))"
    if "?ok" "j < length b" "h + 14 + 4 * (nat once_k + nat repeat_k) \<le> length b"
  proof -
    have fit: "h + 6 + 8 + 4 * (nat once_k + nat repeat_k) \<le> length b" using that(3) by simp
    have pp: "pulse_part b (h + 6) a base once_k repeat_k =
                then_out (dump_pairs xs ''once'' base a) (dump_pairs ys ''repeat'' base a)"
      using pulse_part_in_range [OF o0 fit, of a base]
      by (simp add: xs_def ys_def add.assoc)
    have g: "getitem b (nat (u32_at b (h + 2))) = Inr (b ! j)"
      using that(2) by (simp add: getitem_def j_def)
    have d': "dump_button b (h + 6) a =
                dump_block b (h + 6) a (u32_at b (h + 2)) base once_k repeat_k"
      using that(1) by (simp add: d)
    show ?thesis
      unfolding d' dump_block_alt g sum.case pp name_def j_def by (rule refl)
  qed
  have plainf: "\<exists>khz. to_khz base = Inr khz \<and>
              dump_button b (h + 6) a =
                ([ButtonLine name, CarrierLine khz base, HeaderLine base once_k repeat_k,
                  PairsLine ''once'' (nat once_k) False] @
                 (if once_k = 0 then [] else [SeqLine xs True]) @
                 [PairsLine ''repeat'' (nat repeat_k) False] @
                 (if repeat_k = 0 then [] else [SeqLine ys True]), None)"
    if "?ok" "j < length b" "h + 14 + 4 * (nat once_k + nat repeat_k) \<le> length b"
      "\<not> args_lirc a" "args_rescale a = None" "0 < base"
  proof -
    have "base < 2 ^ 53" using blt by simp
    from to_khz_ok [OF that(6) this] obtain khz where k: "to_khz base = Inr khz" by blast
    have x0: "xs = [] \<longleftrightarrow> once_k = 0" using o0 by (simp add: xs_def pulses_at_Nil)
    have y0: "ys = [] \<longleftrightarrow> repeat_k = 0" using o0 by (simp add: ys_def pulses_at_Nil)
    have lx: "length xs div 2 = nat once_k" by (simp add: xs_def length_pulses_at)
    have ly: "length ys div 2 = nat repeat_k" by (simp add: ys_def length_pulses_at)
    have "dump_button b (h + 6) a =
            then_out ([ButtonLine name, CarrierLine khz base,
                       HeaderLine base once_k repeat_k], None)
              (then_out (dump_pairs xs ''once'' base a) (dump_pairs ys ''repeat'' base a))"
      using full [OF that(1-3)] by (simp add: that(5) k)
    then have "dump_button b (h + 6) a =
                ([ButtonLine name, CarrierLine khz base, HeaderLine base once_k repeat_k,
                  PairsLine ''once'' (nat once_k) False] @
                 (if once_k = 0 then [] else [SeqLine xs True]) @
                 [PairsLine ''repeat'' (nat repeat_k) False] @
                 (if repeat_k = 0 then [] else [SeqLine ys True]), None)"
      by (simp add: dump_pairs_plain [OF that(4,5)] then_out_def x0 y0 lx ly)
    with k show ?thesis by blast
  qed
  have acc: "dump_button b (h + 6) a \<noteq> ([], None)" if ok: "?ok"
  proof (cases "j < length b")
    case True
    then have "nat (u32_at b (h + 2)) < length b" by (simp add: j_def)
    from dump_block_prints_button [OF this, where i = "h + 6" and a = a and base = base
        and once_k = once_k and repeat_k = repeat_k]
    show ?thesis using ok by (auto simp: d)
  next
    case False
    then have "length b \<le> j" by simp
    from nm [OF ok this] show ?thesis by simp
  qed
  have iff: "dump_button b (h + 6) a = ([], None) \<longleftrightarrow> \<not> ?ok"
    using acc by (auto simp: d)
  have cont: "scan a b kl kh off = later [(h + 6, [])] (scan a b kl kh (h + 6 + 3))"
    if "bfind b pat off = Some (h + 6)" "heuristic b (h + 6) kl kh = Inr True" "\<not> ?ok"
    for kl kh off
    using that(3) by (intro scan_unfold_next [OF that(1,2)]) (simp add: d)
  show ?thesis
    unfolding Let_def size_def [symmetric] j_def [symmetric] base_def [symmetric]
      once_k_def [symmetric] repeat_k_def [symmetric] name_def [symmetric]
      xs_def [symmetric] ys_def [symmetric]
  proof (intro conjI allI impI)
    show "dump_button b (h + 6) a = ([], None) \<longleftrightarrow> size \<noteq> 6 + 8 + (once_k + repeat_k) * 4"
      by (rule iff)
  next
    fix kl kh off
    assume "bfind b pat off = Some (h + 6) \<and> heuristic b (h + 6) kl kh = Inr True \<and>
            size \<noteq> 6 + 8 + (once_k + repeat_k) * 4"
    then show "scan a b kl kh off = later [(h + 6, [])] (scan a b kl kh (h + 6 + 3))"
      using cont by blast
  next
    assume "?ok \<and> length b \<le> j"
    then show "dump_button b (h + 6) a = ([], Some IndexError)" using nm by blast
  next
    assume "?ok \<and> j < length b \<and> h + 14 + 4 * (nat once_k + nat repeat_k) \<le> length b"
    then have "?ok" "j < length b" "h + 14 + 4 * (nat once_k + nat repeat_k) \<le> length b"
      by simp_all
    then show "dump_button b (h + 6) a =
             (case (case args_rescale a of
                      None \<Rightarrow> Inr base
                    | Some hz \<Rightarrow> if hz = 0 then Inr base else freq2k hz) of
                Inl e \<Rightarrow> ([ButtonLine name], Some e)
              | Inr baseP \<Rightarrow>
                  (case to_khz baseP of
                     Inl e \<Rightarrow> ([ButtonLine name], Some e)
                   | Inr khz \<Rightarrow>
                       then_out
                         ([ButtonLine name, CarrierLine khz baseP,
                           HeaderLine baseP once_k repeat_k], None)
                         (then_out (dump_pairs xs ''once'' base a)
                                   (dump_pairs ys ''repeat'' base a))))"
      by (rule full)
  next
    assume "?ok \<and> j < length b \<and> h + 14 + 4 * (nat once_k + nat repeat_k) \<le> length b \<and>
            \<not> args_lirc a \<and> args_rescale a = None \<and> 0 < base"
    then have "?ok" "j < length b" "h + 14 + 4 * (nat once_k + nat repeat_k) \<le> length b"
      "\<not> args_lirc a" "args_rescale a = None" "0 < base"
      by simp_all
    then show "\<exists>khz. to_khz base = Inr khz \<and>
              dump_button b (h + 6) a =
                ([ButtonLine name, CarrierLine khz base, HeaderLine base once_k repeat_k,
                  PairsLine ''once'' (nat once_k) False] @
                 (if once_k = 0 then [] else [SeqLine xs True]) @
                 [PairsLine ''repeat'' (nat repeat_k) False] @
                 (if repeat_k = 0 then [] else [SeqLine ys True]), None)"
      by (rule plainf)
  qed
qed


theorem validator_accepts_iff_size_matches_witness:
  "dump_button (sample_file 2 105) (36 + 6) plain =
     ([ButtonLine [0x4F, 0x4B], CarrierLine (5555976190094364 / 2 ^ 47) 105, HeaderLine 105 1 1,
       PairsLine ''once'' 1 False, SeqLine [96, 24] True,
       PairsLine ''repeat'' 1 False, SeqLine [48, 24] True], None)"
proof -
  let ?s = "sample_file 2 105"
  have len: "36 + 14 \<le> length ?s" by (simp add: sample_header)
  have nm: "take (unat (?s ! nat 16)) (drop (nat 16 + 1) ?s) = [0x4F, 0x4B]"
    by (simp add: sample_file_def)
  have xs: "pulses_at ?s (36 + 14) (nat 1) = [96, 24]"
    by (simp add: pulses_at_def u16_at_def sample_file_def)
  have ys: "pulses_at ?s (36 + 14 + 4 * nat 1) (nat 1) = [48, 24]"
    by (simp add: pulses_at_def u16_at_def sample_file_def)
  note t = validator_accepts_iff_size_matches [OF len, of plain,
      unfolded Let_def sample_header nm xs ys]
  note t5 = t [THEN conjunct2, THEN conjunct2, THEN conjunct2, THEN conjunct2]
  then have "\<exists>khz. to_khz 105 = Inr khz \<and>
      dump_button ?s (36 + 6) plain =
        ([ButtonLine [0x4F, 0x4B], CarrierLine khz 105, HeaderLine 105 1 1,
          PairsLine ''once'' 1 False, SeqLine [96, 24] True,
          PairsLine ''repeat'' 1 False, SeqLine [48, 24] True], None)"
    by (simp add: plain_def)
  then obtain khz where k: "to_khz 105 = Inr khz"
    and d: "dump_button ?s (36 + 6) plain =
        ([ButtonLine [0x4F, 0x4B], CarrierLine khz 105, HeaderLine 105 1 1,
          PairsLine ''once'' 1 False, SeqLine [96, 24] True,
          PairsLine ''repeat'' 1 False, SeqLine [48, 24] True], None)"
    by blast
  from k have kv: "5555976190094364 / 2 ^ 47 = khz" by (simp only: to_khz_105 sum.inject)
  show ?thesis unfolding kv by (rule d)
qed

text \<open>
  C4 does not hold as stated.  An empty file differs from both signatures, but the run
  ends with the \<open>ValueError\<close> of the mapping, not with the format error; and with
  \<open>--carrier 0\<close> the run ends with \<open>ZeroDivisionError\<close> before the file is opened,
  whatever its signatures are.
\<close>

theorem mismatch_without_format_error:
  "take 8 (drop 8 ([] :: byte list)) \<noteq> magic1 \<and>
   raised (search_ccf plain []) = Some ValueError \<and>
   take 8 (drop 8 (drop 1 (sample_file 2 105))) \<noteq> magic1 \<and>
   raised (search_ccf (plain\<lparr>args_carrier := 0\<rparr>) (drop 1 (sample_file 2 105))) =
     Some ZeroDivisionError"
proof -
  have 1: "take 8 (drop 8 ([] :: byte list)) \<noteq> magic1" by (simp add: magic1_def)
  have 2: "raised (search_ccf plain []) = Some ValueError"
    by (simp add: search_ccf_def plain_def band_40000)
  have 3: "take 8 (drop 8 (drop 1 (sample_file 2 105))) \<noteq> magic1"
    by (simp add: magic1_def sample_file_def)
  have 4: "raised (search_ccf (plain\<lparr>args_carrier := 0\<rparr>) (drop 1 (sample_file 2 105))) =
     Some ZeroDivisionError"
    by (simp add: search_ccf_def band_0)
  from 1 2 3 4 show ?thesis by (intro conjI)
qed

text \<open>
  C4, amended.  When either signature differs from its constant, nothing is scanned and
  nothing is reported, and the run ends with an exception: the one raised by the
  computation of the carrier band, when that fails (it precedes the opening of the
  file); else \<open>ValueError\<close> for an empty file; else the format error (\<open>RuntimeError\<close>).
  When both signatures match, no format error is raised, and once the band is computed
  the result is that of the scan from offset 0.
\<close>

theorem magic_check:
  "(take 8 (drop 8 b) \<noteq> magic1 \<or> take 4 (drop 32 b) \<noteq> magic2 \<longrightarrow>
      calls (search_ccf a b) = [] \<and> iters (search_ccf a b) = 0 \<and>
      (case band (args_carrier a) of
         Inl e \<Rightarrow> raised (search_ccf a b) = Some e
       | Inr p \<Rightarrow> raised (search_ccf a b) = Some (if b = [] then ValueError else RuntimeError))) \<and>
   (take 8 (drop 8 b) = magic1 \<and> take 4 (drop 32 b) = magic2 \<longrightarrow>
      raised (search_ccf a b) \<noteq> Some RuntimeError \<and>
      (case band (args_carrier a) of
         Inl e \<Rightarrow> search_ccf a b = \<lparr>calls = [], raised = Some e, iters = 0\<rparr>
       | Inr (kl, kh) \<Rightarrow> search_ccf a b = scan a b kl kh 0))"
proof -
  have berr: "e \<noteq> RuntimeError" if "band c = Inl e" for c e
    using that by (auto simp: band_def split: sum.splits dest: freq2k_err py_float_err)
  have ne: "b \<noteq> []" if "take 8 (drop 8 b) = magic1"
    using that by (auto simp: magic1_def)
  show ?thesis
  proof (cases "band (args_carrier a)")
    case (Inl e)
    with berr [OF Inl] show ?thesis by (simp add: search_ccf_def)
  next
    case (Inr p)
    obtain kl kh where p: "p = (kl, kh)" by (cases p)
    show ?thesis
      using scan_no_runtime_error [of a b kl kh 0] ne
      by (auto simp: search_ccf_def Inr p)
  qed
qed

theorem magic_check_witness:
  "search_ccf plain (sample_file 2 105) = scan plain (sample_file 2 105) 99 106 0 \<and>
   raised (search_ccf plain (sample_file 2 105)) \<noteq> Some RuntimeError \<and>
   raised (search_ccf plain (drop 1 (sample_file 2 105))) = Some RuntimeError \<and>
   calls (search_ccf plain (drop 1 (sample_file 2 105))) = []"
proof -
  have c: "band (args_carrier plain) = Inr (99, 106)" by (simp add: plain_def band_40000)
  have bad: "take 8 (drop 8 (drop 1 (sample_file 2 105))) \<noteq> magic1"
    by (simp add: magic1_def sample_file_def)
  have ne: "drop 1 (sample_file 2 105) \<noteq> []" by (simp add: sample_file_def)
  from magic_check [of "sample_file 2 105" plain] sample_magic [of 2 105]
  have 1: "search_ccf plain (sample_file 2 105) = scan plain (sample_file 2 105) 99 106 0 \<and>
           raised (search_ccf plain (sample_file 2 105)) \<noteq> Some RuntimeError"
    by (auto simp: c)
  from magic_check [of "drop 1 (sample_file 2 105)" plain] bad ne
  have 2: "raised (search_ccf plain (drop 1 (sample_file 2 105))) = Some RuntimeError \<and>
           calls (search_ccf plain (drop 1 (sample_file 2 105))) = []"
    by (simp add: c)
  from 1 2 show ?thesis by blast
qed

end
